theory Spec2Isabelle
  imports Main "HOL-Library.Word" "HOL-Library.Sublist" "HOL-Library.Multiset"
begin

section \<open>Strings of the embedded program\<close>

text \<open>
  A JavaScript string is a sequence of 16-bit code units. String literals of the source
  are written through \<open>js\<close>, which maps every (ASCII) character of the literal to its
  code unit.
\<close>

type_synonym jschar = "16 word"
type_synonym jsstring = "jschar list"

definition js :: "string \<Rightarrow> jsstring" where
  "js s = map (\<lambda>c. of_nat (of_char c)) s"

definition slash :: jschar where
  "slash = 0x2F"

definition percent :: jschar where
  "percent = 0x25"

text \<open>
  The characters that \<open>.\<close> of a regular expression (without the \<open>s\<close> flag) refuses:
  LF, CR, U+2028 and U+2029.
\<close>

definition lineTerminator :: "jschar \<Rightarrow> bool" where
  "lineTerminator c = (c = 0x0A \<or> c = 0x0D \<or> c = 0x2028 \<or> c = 0x2029)"

text \<open>\<open>s.split(c)\<close> for a one-character separator: the empty string gives one empty piece.\<close>

fun split_on :: "'a \<Rightarrow> 'a list \<Rightarrow> 'a list list" where
  "split_on c [] = [[]]"
| "split_on c (x # xs) =
     (if x = c then [] # split_on c xs
      else (case split_on c xs of
              [] \<Rightarrow> [[x]]
            | y # ys \<Rightarrow> (x # y) # ys))"

text \<open>\<open>pieces.join(sep)\<close>.\<close>

fun join_with :: "'a list \<Rightarrow> 'a list list \<Rightarrow> 'a list" where
  "join_with sep [] = []"
| "join_with sep [x] = x"
| "join_with sep (x # y # ys) = x @ sep @ join_with sep (y # ys)"

text \<open>The longest suffix of a string all of whose characters satisfy \<open>P\<close>.\<close>

definition takeWhileEnd :: "('a \<Rightarrow> bool) \<Rightarrow> 'a list \<Rightarrow> 'a list" where
  "takeWhileEnd P xs = rev (takeWhile P (rev xs))"

section \<open>Errors\<close>

text \<open>
  \<open>NotVirtualFile filename\<close> is the dispatcher's
  \<open>Error(`not an @embroider/core virtual file: ${filename}`)\<close>,
  \<open>ImplicitModulesBug fromFile\<close> is
  \<open>Error(`bug: saw special implicit modules import in non-ember package at ${fromFile}`)\<close>,
  and \<open>URIError\<close> is the exception of the built-in \<open>encodeURIComponent\<close> and
  \<open>decodeURIComponent\<close>.
\<close>

datatype error = NotVirtualFile jsstring | ImplicitModulesBug jsstring | URIError

section \<open>The built-ins \<open>encodeURIComponent\<close> and \<open>decodeURIComponent\<close>\<close>

text \<open>The unreserved characters: ASCII letters, digits and \<open>- _ . ! ~ * ' ( )\<close>.\<close>

definition uriUnreserved :: "jschar \<Rightarrow> bool" where
  "uriUnreserved c =
     (let n = unat c in
        (65 \<le> n \<and> n \<le> 90) \<or> (97 \<le> n \<and> n \<le> 122) \<or> (48 \<le> n \<and> n \<le> 57)
        \<or> n \<in> {45, 95, 46, 33, 126, 42, 39, 40, 41})"

definition hexDigit :: "nat \<Rightarrow> jschar" where
  "hexDigit d = (if d < 10 then of_nat (48 + d) else of_nat (55 + d))"

definition hexOctet :: "nat \<Rightarrow> jsstring" where
  "hexOctet b = [percent, hexDigit (b div 16), hexDigit (b mod 16)]"

text \<open>The UTF-8 octets of a code point.\<close>

definition utf8 :: "nat \<Rightarrow> nat list" where
  "utf8 cp =
     (if cp < 0x80 then [cp]
      else if cp < 0x800 then [0xC0 + cp div 64, 0x80 + cp mod 64]
      else if cp < 0x10000 then [0xE0 + cp div 4096, 0x80 + (cp div 64) mod 64, 0x80 + cp mod 64]
      else [0xF0 + cp div 262144, 0x80 + (cp div 4096) mod 64,
            0x80 + (cp div 64) mod 64, 0x80 + cp mod 64])"

definition highSurrogate :: "jschar \<Rightarrow> bool" where
  "highSurrogate c = (0xD800 \<le> unat c \<and> unat c \<le> 0xDBFF)"

definition lowSurrogate :: "jschar \<Rightarrow> bool" where
  "lowSurrogate c = (0xDC00 \<le> unat c \<and> unat c \<le> 0xDFFF)"

definition escapeCodePoint :: "nat \<Rightarrow> jsstring" where
  "escapeCodePoint cp = concat (map hexOctet (utf8 cp))"

text \<open>
  \<open>encodeURIComponent\<close>: an unreserved code unit is copied; any other code point is
  written as the escaped octets of its UTF-8 form; an unpaired surrogate raises
  \<open>URIError\<close>.
\<close>

fun encodeURIComponent :: "jsstring \<Rightarrow> error + jsstring" where
  "encodeURIComponent [] = Inr []"
| "encodeURIComponent (c # cs) =
     (if uriUnreserved c then map_sum id ((#) c) (encodeURIComponent cs)
      else if lowSurrogate c then Inl URIError
      else if highSurrogate c then
        (case cs of
           [] \<Rightarrow> Inl URIError
         | d # ds \<Rightarrow>
             if lowSurrogate d then
               map_sum id
                 ((@) (escapeCodePoint
                         (0x10000 + (unat c - 0xD800) * 0x400 + (unat d - 0xDC00))))
                 (encodeURIComponent ds)
             else Inl URIError)
      else map_sum id ((@) (escapeCodePoint (unat c))) (encodeURIComponent cs))"

definition hexValue :: "jschar \<Rightarrow> nat option" where
  "hexValue c =
     (let n = unat c in
        if 48 \<le> n \<and> n \<le> 57 then Some (n - 48)
        else if 65 \<le> n \<and> n \<le> 70 then Some (n - 55)
        else if 97 \<le> n \<and> n \<le> 102 then Some (n - 87)
        else None)"

text \<open>
  Decoding reads the string as a sequence of literal code units and escaped octets
  \<open>%XX\<close>; a \<open>%\<close> that is not followed by two hexadecimal digits raises \<open>URIError\<close>.
\<close>

datatype uriToken = Literal jschar | Octet nat

fun uriTokens :: "jsstring \<Rightarrow> uriToken list option" where
  "uriTokens [] = Some []"
| "uriTokens (c # cs) =
     (if c = percent then
        (case cs of
           h # l # rest \<Rightarrow>
             (case (hexValue h, hexValue l) of
                (Some a, Some b) \<Rightarrow> map_option ((#) (Octet (16 * a + b))) (uriTokens rest)
              | _ \<Rightarrow> None)
         | _ \<Rightarrow> None)
      else map_option ((#) (Literal c)) (uriTokens cs))"

definition continuation :: "nat \<Rightarrow> bool" where
  "continuation b = (0x80 \<le> b \<and> b < 0xC0)"

text \<open>The UTF-16 code units of a code point.\<close>

definition utf16 :: "nat \<Rightarrow> jsstring" where
  "utf16 cp =
     (if cp < 0x10000 then [of_nat cp]
      else [of_nat (0xD800 + (cp - 0x10000) div 0x400),
            of_nat (0xDC00 + (cp - 0x10000) mod 0x400)])"

text \<open>
  An octet below \<open>0x80\<close> is its own character. A leading octet announces one to three
  continuation octets, which must follow as escapes; the octets must be the valid
  (shortest, non-surrogate, at most U+10FFFF) UTF-8 form of a code point.
\<close>

fun decodeTokens :: "uriToken list \<Rightarrow> jsstring option" where
  "decodeTokens [] = Some []"
| "decodeTokens (Literal c # ts) = map_option ((#) c) (decodeTokens ts)"
| "decodeTokens (Octet b # ts) =
     (if b < 0x80 then map_option ((#) (of_nat b)) (decodeTokens ts)
      else if b < 0xC0 then None
      else if b < 0xE0 then
        (case ts of
           Octet b1 # rest \<Rightarrow>
             (let cp = (b - 0xC0) * 64 + (b1 - 0x80) in
                if continuation b1 \<and> 0x80 \<le> cp
                then map_option ((@) (utf16 cp)) (decodeTokens rest) else None)
         | _ \<Rightarrow> None)
      else if b < 0xF0 then
        (case ts of
           Octet b1 # Octet b2 # rest \<Rightarrow>
             (let cp = (b - 0xE0) * 4096 + (b1 - 0x80) * 64 + (b2 - 0x80) in
                if continuation b1 \<and> continuation b2 \<and> 0x800 \<le> cp
                   \<and> \<not> (0xD800 \<le> cp \<and> cp \<le> 0xDFFF)
                then map_option ((@) (utf16 cp)) (decodeTokens rest) else None)
         | _ \<Rightarrow> None)
      else if b < 0xF8 then
        (case ts of
           Octet b1 # Octet b2 # Octet b3 # rest \<Rightarrow>
             (let cp = (b - 0xF0) * 262144 + (b1 - 0x80) * 4096 + (b2 - 0x80) * 64
                       + (b3 - 0x80) in
                if continuation b1 \<and> continuation b2 \<and> continuation b3
                   \<and> 0x10000 \<le> cp \<and> cp \<le> 0x10FFFF
                then map_option ((@) (utf16 cp)) (decodeTokens rest) else None)
         | _ \<Rightarrow> None)
      else None)"

definition decodeURIComponent :: "jsstring \<Rightarrow> error + jsstring" where
  "decodeURIComponent s =
     (case uriTokens s of
        None \<Rightarrow> Inl URIError
      | Some ts \<Rightarrow> (case decodeTokens ts of None \<Rightarrow> Inl URIError | Some r \<Rightarrow> Inr r))"

section \<open>The path library (POSIX flavour)\<close>

text \<open>
  The functions of Node's \<open>path\<close> module that the source calls, for a POSIX host:
  \<open>sep\<close> is \<open>/\<close>, and \<open>join\<close>, \<open>resolve\<close>, \<open>dirname\<close> and \<open>basename\<close> are those of
  \<open>path.posix\<close>. A path is handled segment by segment: an empty segment and \<open>.\<close> are
  dropped, \<open>..\<close> removes the segment before it, and is kept only in front of a
  relative path.
\<close>

definition dotSegment :: jsstring where
  "dotSegment = js ''.''"

definition dotDotSegment :: jsstring where
  "dotDotSegment = js ''..''"

definition normalizeStep :: "bool \<Rightarrow> jsstring list \<Rightarrow> jsstring \<Rightarrow> jsstring list" where
  "normalizeStep allowAboveRoot stack seg =
     (if seg = [] \<or> seg = dotSegment then stack
      else if seg = dotDotSegment then
        (case stack of
           [] \<Rightarrow> if allowAboveRoot then [dotDotSegment] else []
         | lastSeg # below \<Rightarrow>
             if lastSeg = dotDotSegment
             then (if allowAboveRoot then dotDotSegment # stack else stack)
             else below)
      else seg # stack)"

text \<open>The stack holds the segments kept so far, the last one first.\<close>

definition normalizeSegments :: "bool \<Rightarrow> jsstring \<Rightarrow> jsstring list" where
  "normalizeSegments allowAboveRoot path =
     foldl (normalizeStep allowAboveRoot) [] (split_on slash path)"

definition normalizeString :: "jsstring \<Rightarrow> bool \<Rightarrow> jsstring" where
  "normalizeString path allowAboveRoot =
     join_with [slash] (rev (normalizeSegments allowAboveRoot path))"

definition normalize :: "jsstring \<Rightarrow> jsstring" where
  "normalize path =
     (if path = [] then dotSegment
      else
        (let isAbsolute = (hd path = slash);
             trailingSeparator = (last path = slash);
             p = normalizeString path (\<not> isAbsolute)
         in if p = [] then
              (if isAbsolute then [slash]
               else if trailingSeparator then js ''./'' else dotSegment)
            else
              (let q = (if trailingSeparator then p @ [slash] else p)
               in if isAbsolute then slash # q else q)))"

text \<open>\<open>posix.join(...args)\<close>: the non-empty arguments, joined by \<open>/\<close>, normalised.\<close>

definition posix_join :: "jsstring list \<Rightarrow> jsstring" where
  "posix_join args =
     (case filter (\<lambda>a. a \<noteq> []) args of
        [] \<Rightarrow> dotSegment
      | parts \<Rightarrow> normalize (join_with [slash] parts))"

text \<open>
  \<open>resolve(...args)\<close> reads its arguments from the last to the first, skipping empty
  ones, until the path collected is absolute, and falls back on the working directory
  of the process, which is a parameter here.
\<close>

fun resolveLoop :: "jsstring list \<Rightarrow> jsstring \<Rightarrow> bool \<Rightarrow> jsstring \<times> bool" where
  "resolveLoop [] resolvedPath resolvedAbsolute = (resolvedPath, resolvedAbsolute)"
| "resolveLoop (path # paths) resolvedPath resolvedAbsolute =
     (if resolvedAbsolute then (resolvedPath, resolvedAbsolute)
      else if path = [] then resolveLoop paths resolvedPath resolvedAbsolute
      else resolveLoop paths (path @ [slash] @ resolvedPath) (hd path = slash))"

definition resolve :: "jsstring \<Rightarrow> jsstring list \<Rightarrow> jsstring" where
  "resolve cwd args =
     (case resolveLoop (rev args @ [cwd]) [] False of
        (resolvedPath, resolvedAbsolute) \<Rightarrow>
          (let p = normalizeString resolvedPath (\<not> resolvedAbsolute)
           in if resolvedAbsolute then slash # p
              else if p \<noteq> [] then p else dotSegment))"

text \<open>
  \<open>dirname(path)\<close>: what stands before the last separator that is followed by a
  segment; the scan from the end stops at index 1.
\<close>

definition dirname :: "jsstring \<Rightarrow> jsstring" where
  "dirname path =
     (if path = [] then dotSegment
      else
        (let hasRoot = (hd path = slash);
             scanned = dropWhile (\<lambda>c. c \<noteq> slash)
                         (dropWhile (\<lambda>c. c = slash) (rev (tl path)));
             end = length scanned
         in if scanned = [] then (if hasRoot then [slash] else dotSegment)
            else if hasRoot \<and> end = 1 then js ''//''
            else take end path))"

text \<open>\<open>basename(path)\<close>: the last segment, trailing separators ignored.\<close>

definition basename :: "jsstring \<Rightarrow> jsstring" where
  "basename path = takeWhileEnd (\<lambda>c. c \<noteq> slash) (rev (dropWhile (\<lambda>c. c = slash) (rev path)))"

section \<open>The filename codec\<close>

subsection \<open>External modules\<close>

definition externalPrefix :: jsstring where
  "externalPrefix = js ''/@embroider/external/''"

definition virtualExternalModule :: "jsstring \<Rightarrow> jsstring" where
  "virtualExternalModule specifier = externalPrefix @ specifier"

subsection \<open>Paired components\<close>

text \<open>
  \<open>explicitRelative\<close> is imported from another module of the package; the functions
  below take it as their first argument.
\<close>

type_synonym relativizer = "jsstring \<Rightarrow> jsstring \<Rightarrow> jsstring"

definition pairComponentMarker :: jsstring where
  "pairComponentMarker = js ''/embroider-pair-component''"

text \<open>
  \<open>/^(?<hbsModule>.*)\/(?<jsModule>[^\/]*)\/embroider-pair-component$/\<close>, anchored at both
  ends: the name must end in the marker; \<open>jsModule\<close> is the run without \<open>/\<close> that
  stands before the marker, and it must follow a \<open>/\<close>; \<open>hbsModule\<close> is everything
  before that \<open>/\<close>, and \<open>.\<close> matches no line terminator. The result is the pair of the
  two named groups.
\<close>

definition pairComponentPattern :: "jsstring \<Rightarrow> (jsstring \<times> jsstring) option" where
  "pairComponentPattern filename =
     (if suffix pairComponentMarker filename then
        (let body = take (length filename - length pairComponentMarker) filename;
             jsModule = takeWhileEnd (\<lambda>c. c \<noteq> slash) body;
             front = take (length body - length jsModule) body
         in if front \<noteq> [] \<and> \<not> list_ex lineTerminator (butlast front)
            then Some (butlast front, jsModule) else None)
      else None)"

definition virtualPairComponent ::
    "relativizer \<Rightarrow> jsstring \<Rightarrow> jsstring option \<Rightarrow> error + jsstring" where
  "virtualPairComponent explicitRelative hbsModule jsModule =
     (let relativeJS =
            (case jsModule of
               None \<Rightarrow> []
             | Some j \<Rightarrow> if j \<noteq> [] then explicitRelative (hbsModule @ js ''/j/'') j else [])
      in case encodeURIComponent relativeJS of
           Inl e \<Rightarrow> Inl e
         | Inr encoded \<Rightarrow> Inr (hbsModule @ [slash] @ encoded @ pairComponentMarker))"

record pairedComponent =
  relativeHBSModule :: jsstring
  relativeJSModule :: "jsstring option"
  debugName :: jsstring

text \<open>\<open>s.replace(/\.(js|hbs)$/, '')\<close>.\<close>

definition stripTemplateExtension :: "jsstring \<Rightarrow> jsstring" where
  "stripTemplateExtension s =
     (if suffix (js ''.js'') s then take (length s - 3) s
      else if suffix (js ''.hbs'') s then take (length s - 4) s
      else s)"

text \<open>The result is \<open>Inr None\<close> for the source's \<open>null\<close>.\<close>

definition decodeVirtualPairComponent ::
    "relativizer \<Rightarrow> jsstring \<Rightarrow> error + pairedComponent option" where
  "decodeVirtualPairComponent explicitRelative filename =
     (case pairComponentPattern filename of
        None \<Rightarrow> Inr None
      | Some (hbsModule, jsModule) \<Rightarrow>
          (let relHBS = explicitRelative (dirname filename) hbsModule
           in case decodeURIComponent jsModule of
                Inl e \<Rightarrow> Inl e
              | Inr decoded \<Rightarrow>
                  Inr (Some \<lparr> relativeHBSModule = relHBS,
                              relativeJSModule = (if decoded \<noteq> [] then Some decoded else None),
                              debugName = stripTemplateExtension (basename relHBS) \<rparr>)))"

subsection \<open>Fastboot switches\<close>

definition fastbootSwitchSuffix :: jsstring where
  "fastbootSwitchSuffix = js ''/embroider_fastboot_switch''"

definition namesQuery :: jsstring where
  "namesQuery = js ''?names=''"

text \<open>
  \<open>/(?<original>.+)\/embroider_fastboot_switch(?:\?names=(?<names>.+))?$/\<close> is not anchored
  at its start. What may follow the suffix: nothing (\<open>names\<close> is undefined), or
  \<open>?names=\<close> and a non-empty run without line terminator up to the end.
\<close>

definition fastbootQuery :: "jsstring \<Rightarrow> jsstring option option" where
  "fastbootQuery rest =
     (if rest = [] then Some None
      else if prefix namesQuery rest
              \<and> drop (length namesQuery) rest \<noteq> []
              \<and> \<not> list_ex lineTerminator (drop (length namesQuery) rest)
           then Some (Some (drop (length namesQuery) rest))
      else None)"

text \<open>What follows \<open>original\<close>: the suffix, then the optional query.\<close>

definition fastbootAfterOriginal ::
    "jsstring \<Rightarrow> jsstring \<Rightarrow> (jsstring \<times> jsstring option) option" where
  "fastbootAfterOriginal taken rest =
     (if prefix fastbootSwitchSuffix rest
      then map_option (Pair (rev taken)) (fastbootQuery (drop (length fastbootSwitchSuffix) rest))
      else None)"

text \<open>
  The greedy \<open>.+\<close>, as a backtracking matcher runs it: \<open>taken\<close> holds the characters
  already given to \<open>original\<close>, the last one first. It first takes one more character
  that is no line terminator, and only if the rest of the pattern fails after that does
  it try the rest of the pattern at the present position.
\<close>

fun fastbootOriginal ::
    "jsstring \<Rightarrow> jsstring \<Rightarrow> (jsstring \<times> jsstring option) option" where
  "fastbootOriginal taken [] = fastbootAfterOriginal taken []"
| "fastbootOriginal taken (c # cs) =
     (case (if lineTerminator c then None else fastbootOriginal (c # taken) cs) of
        Some groups \<Rightarrow> Some groups
      | None \<Rightarrow> fastbootAfterOriginal taken (c # cs))"

text \<open>The attempt at one start position: \<open>.+\<close> takes at least one character.\<close>

definition fastbootMatchAt :: "jsstring \<Rightarrow> (jsstring \<times> jsstring option) option" where
  "fastbootMatchAt s =
     (case s of
        [] \<Rightarrow> None
      | c # cs \<Rightarrow> if lineTerminator c then None else fastbootOriginal [c] cs)"

text \<open>
  \<open>exec\<close> tries the start positions from the left and takes the first match. The
  result is the pair of the groups \<open>original\<close> and \<open>names\<close>.
\<close>

fun fastbootSwitchPattern :: "jsstring \<Rightarrow> (jsstring \<times> jsstring option) option" where
  "fastbootSwitchPattern [] = None"
| "fastbootSwitchPattern (c # cs) =
     (case fastbootMatchAt (c # cs) of
        Some groups \<Rightarrow> Some groups
      | None \<Rightarrow> fastbootSwitchPattern cs)"

text \<open>
  The set of names is the list of its members in insertion order, which is the order in
  which \<open>[...names]\<close> lists them. The working directory of the process, which
  \<open>resolve\<close> reads, is the first argument.
\<close>

definition comma :: jschar where
  "comma = 0x2C"

definition fastbootSwitch :: "jsstring \<Rightarrow> jsstring \<Rightarrow> jsstring \<Rightarrow> jsstring list \<Rightarrow> jsstring" where
  "fastbootSwitch cwd specifier fromFile names =
     (let filename = resolve cwd [dirname fromFile, specifier] @ fastbootSwitchSuffix
      in if length names > 0 then filename @ namesQuery @ join_with [comma] names
         else filename)"

record fastbootSwitchParams =
  fb_names :: "jsstring list"
  fb_hasDefaultExport :: bool
  fb_filename :: jsstring

definition defaultName :: jsstring where
  "defaultName = js ''default''"

definition decodeFastbootSwitch :: "jsstring \<Rightarrow> fastbootSwitchParams option" where
  "decodeFastbootSwitch filename =
     (case fastbootSwitchPattern filename of
        None \<Rightarrow> None
      | Some (original, namesGroup) \<Rightarrow>
          (let names = (case namesGroup of None \<Rightarrow> [] | Some n \<Rightarrow> split_on comma n)
           in Some \<lparr> fb_names = filter (\<lambda>name. name \<noteq> defaultName) names,
                     fb_hasDefaultExport = (defaultName \<in> set names),
                     fb_filename = original \<rparr>))"

subsection \<open>Implicit modules\<close>

datatype implicitType = ImplicitModules | ImplicitTestModules

fun typeName :: "implicitType \<Rightarrow> jsstring" where
  "typeName ImplicitModules = js ''implicit-modules''"
| "typeName ImplicitTestModules = js ''implicit-test-modules''"

record implicitModulesParams =
  im_type :: implicitType
  im_fromFile :: jsstring

definition implicitModulesSuffix :: jsstring where
  "implicitModulesSuffix = js ''/#embroider-implicit-modules''"

definition implicitTestModulesSuffix :: jsstring where
  "implicitTestModulesSuffix = js ''/#embroider-implicit-test-modules''"

definition decodeImplicitModules :: "jsstring \<Rightarrow> implicitModulesParams option" where
  "decodeImplicitModules filename =
     (if suffix implicitModulesSuffix filename then
        Some \<lparr> im_type = ImplicitModules,
               im_fromFile = take (length filename - length implicitModulesSuffix) filename \<rparr>
      else if suffix implicitTestModulesSuffix filename then
        Some \<lparr> im_type = ImplicitTestModules,
               im_fromFile = take (length filename - length implicitTestModulesSuffix) filename \<rparr>
      else None)"

section \<open>Packages and the resolver\<close>

text \<open>
  The package graph is read, never built, by this module. A package carries what the
  source asks of it: its name, the answers of \<open>isV2Ember()\<close>, \<open>isV2Addon()\<close> and
  \<open>isEngine()\<close>, its \<open>meta\<close> (the keys read here), its \<open>dependencies\<close> and
  \<open>categorizeDependency\<close>. \<open>isV2Addon()\<close> is a type guard for a package whose \<open>meta\<close>
  is present, and \<open>meta\<close> is only read from such a package. An object is the list of its
  entries, in the order of \<open>Object.entries\<close>; an \<open>order-index\<close> is an integer.
\<close>

datatype category = Dependencies | DevDependencies | PeerDependencies

record addonMeta =
  implicit_modules :: "jsstring list option"
  implicit_test_modules :: "jsstring list option"
  renamed_modules :: "(jsstring \<times> jsstring) list option"
  renamed_packages :: "(jsstring \<times> jsstring) list option"
  order_index :: "int option"

datatype package =
  Package (name: jsstring) (isV2Ember: bool) (isV2Addon: bool) (isEngine: bool)
          (meta: addonMeta) (dependencies: "package list")
          (categorizeDependency: "jsstring \<Rightarrow> category option")

record resolver =
  resolvableExtensions :: "jsstring list"
  ownerOfFile :: "jsstring \<Rightarrow> package option"

text \<open>
  \<open>extensionsPattern\<close> is imported from another module of the package. The functions
  below take, as \<open>stripExtensions exts s\<close>, the function
  \<open>s.replace(extensionsPattern(exts), '')\<close>.
\<close>

type_synonym extensionStripper = "jsstring list \<Rightarrow> jsstring \<Rightarrow> jsstring"

section \<open>Ordering the addons\<close>

text \<open>
  \<open>depA.meta['order-index'] || 0\<close>: an absent index, and the index 0, give 0. A package
  of the model is never \<open>null\<close> and always has a \<open>meta\<close>, so of the guard
  \<open>depA && depA.meta && depA.isV2Addon()\<close> the last conjunct decides.
\<close>

definition orderIndexOr0 :: "addonMeta \<Rightarrow> int" where
  "orderIndexOr0 m = (case order_index m of None \<Rightarrow> 0 | Some i \<Rightarrow> if i = 0 then 0 else i)"

definition orderAddons :: "package \<Rightarrow> package \<Rightarrow> int" where
  "orderAddons depA depB =
     (let depAIdx = (if isV2Addon depA then orderIndexOr0 (meta depA) else 0);
          depBIdx = (if isV2Addon depB then orderIndexOr0 (meta depB) else 0)
      in depAIdx - depBIdx)"

text \<open>
  \<open>Array.prototype.sort(comparefn)\<close> is stable, and with a consistent comparison (here
  the difference of two integers) its result is the one that inserting the elements,
  from the last to the first, in front of the first element that is not smaller gives.
\<close>

fun insertSorted :: "('a \<Rightarrow> 'a \<Rightarrow> int) \<Rightarrow> 'a \<Rightarrow> 'a list \<Rightarrow> 'a list" where
  "insertSorted comparefn x [] = [x]"
| "insertSorted comparefn x (y # ys) =
     (if comparefn x y \<le> 0 then x # y # ys else y # insertSorted comparefn x ys)"

definition sortBy :: "('a \<Rightarrow> 'a \<Rightarrow> int) \<Rightarrow> 'a list \<Rightarrow> 'a list" where
  "sortBy comparefn xs = foldr (insertSorted comparefn) xs []"

section \<open>Rendering the implicit modules\<close>

record lazyModule =
  runtime :: jsstring
  buildtime :: jsstring

record manifest =
  lazyModules :: "lazyModule list"
  eagerModules :: "jsstring list"

text \<open>
  The text that a compiled template gives for its parameters is not computed here: a
  module source is the template and the parameters it is applied to.
\<close>

datatype moduleSource =
    externalShim jsstring
  | pairedComponentShim pairedComponent
  | fastbootSwitchTemplate fastbootSwitchParams
  | implicitModulesTemplate manifest

fun implicitModulesOf :: "implicitType \<Rightarrow> addonMeta \<Rightarrow> jsstring list option" where
  "implicitModulesOf ImplicitModules m = implicit_modules m"
| "implicitModulesOf ImplicitTestModules m = implicit_test_modules m"

text \<open>
  \<open>inverseRenamedModules\<close>: the inverted object maps a key to the value written last
  for it.
\<close>

definition inverseRenamedModules ::
    "addonMeta \<Rightarrow> (jsstring \<Rightarrow> jsstring) \<Rightarrow> (jsstring \<rightharpoonup> jsstring) option" where
  "inverseRenamedModules m extensions =
     (case renamed_modules m of
        None \<Rightarrow> None
      | Some renamed \<Rightarrow>
          Some (fold (\<lambda>(classic, real) inverted. inverted(extensions real \<mapsto> extensions classic))
                     renamed Map.empty))"

definition backslash :: jschar where
  "backslash = 0x5C"

definition renamedPackageName :: "package \<Rightarrow> jsstring" where
  "renamedPackageName dep =
     (case renamed_packages (meta dep) of
        None \<Rightarrow> name dep
      | Some renamedMeta \<Rightarrow>
          fold (\<lambda>(key, value) packageName. if value = name dep then key else packageName)
               renamedMeta (name dep))"

definition lazyEntry ::
    "(jsstring \<Rightarrow> jsstring) \<Rightarrow> (jsstring \<rightharpoonup> jsstring) option \<Rightarrow> package \<Rightarrow> jsstring
       \<Rightarrow> lazyModule" where
  "lazyEntry extensions renamedModules dep moduleName =
     (let packageName = renamedPackageName dep;
          runtime0 = extensions (posix_join [packageName, moduleName]);
          runtimeRenameLookup = join_with [slash] (split_on backslash runtime0);
          runtime1 =
            (case renamedModules of
               None \<Rightarrow> runtime0
             | Some inverted \<Rightarrow>
                 (case inverted runtimeRenameLookup of
                    None \<Rightarrow> runtime0
                  | Some classic \<Rightarrow> if classic \<noteq> [] then classic else runtime0))
      in \<lparr> runtime = join_with [slash] (split_on slash runtime1),
           buildtime = posix_join [packageName, moduleName] \<rparr>)"

text \<open>One turn of the loop over the sorted dependencies.\<close>

definition addDependency ::
    "(jsstring \<Rightarrow> jsstring) \<Rightarrow> package \<Rightarrow> implicitType \<Rightarrow> manifest \<Rightarrow> package \<Rightarrow> manifest" where
  "addDependency extensions pkg type acc dep =
     (if \<not> isV2Addon dep then acc
      else if categorizeDependency pkg (name dep) = Some PeerDependencies then acc
      else
        (let withLazy =
               (case implicitModulesOf type (meta dep) of
                  None \<Rightarrow> acc
                | Some implicitModules \<Rightarrow>
                    (let renamedModules = inverseRenamedModules (meta dep) extensions
                     in acc \<lparr> lazyModules := lazyModules acc
                                @ map (lazyEntry extensions renamedModules dep) implicitModules \<rparr>))
         in if \<not> isEngine dep
            then withLazy \<lparr> eagerModules := eagerModules withLazy
                             @ [posix_join [name dep, js ''#embroider-'' @ typeName type]] \<rparr>
            else withLazy))"

definition aggregate ::
    "(jsstring \<Rightarrow> jsstring) \<Rightarrow> package \<Rightarrow> implicitType \<Rightarrow> manifest" where
  "aggregate extensions pkg type =
     foldl (addDependency extensions pkg type) \<lparr> lazyModules = [], eagerModules = [] \<rparr>
           (sortBy orderAddons (dependencies pkg))"

definition renderImplicitModules ::
    "extensionStripper \<Rightarrow> implicitModulesParams \<Rightarrow> resolver \<Rightarrow> error + moduleSource" where
  "renderImplicitModules stripExtensions params resolver =
     (let resolvableExtensionsPattern = stripExtensions (resolvableExtensions resolver)
      in case ownerOfFile resolver (im_fromFile params) of
           None \<Rightarrow> Inl (ImplicitModulesBug (im_fromFile params))
         | Some pkg \<Rightarrow>
             if \<not> isV2Ember pkg then Inl (ImplicitModulesBug (im_fromFile params))
             else Inr (implicitModulesTemplate
                         (aggregate resolvableExtensionsPattern pkg (im_type params))))"

section \<open>The dispatcher\<close>

definition virtualContent ::
    "relativizer \<Rightarrow> extensionStripper \<Rightarrow> jsstring \<Rightarrow> resolver \<Rightarrow> error + moduleSource" where
  "virtualContent explicitRelative stripExtensions filename resolver =
     (if prefix externalPrefix filename
      then Inr (externalShim (drop (length externalPrefix) filename))
      else
        (case decodeVirtualPairComponent explicitRelative filename of
           Inl e \<Rightarrow> Inl e
         | Inr (Some match) \<Rightarrow> Inr (pairedComponentShim match)
         | Inr None \<Rightarrow>
             (case decodeFastbootSwitch filename of
                Some fb \<Rightarrow> Inr (fastbootSwitchTemplate fb)
              | None \<Rightarrow>
                  (case decodeImplicitModules filename of
                     Some im \<Rightarrow> renderImplicitModules stripExtensions im resolver
                   | None \<Rightarrow> Inl (NotVirtualFile filename)))))"

section \<open>Notions used to state the properties\<close>

text \<open>A package with another list of dependencies, everything else unchanged.\<close>

definition withDependencies :: "package \<Rightarrow> package list \<Rightarrow> package" where
  "withDependencies pkg deps =
     Package (name pkg) (isV2Ember pkg) (isV2Addon pkg) (isEngine pkg) (meta pkg) deps
             (categorizeDependency pkg)"

text \<open>
  The order-index as the specification words it: the \<open>order-index\<close> of the metadata, and
  0 when it is absent or when the dependency is not a v2 addon.
\<close>

definition effectiveOrderIndex :: "package \<Rightarrow> int" where
  "effectiveOrderIndex dep =
     (if isV2Addon dep then (case order_index (meta dep) of None \<Rightarrow> 0 | Some i \<Rightarrow> i) else 0)"


text \<open>Sample packages: an application whose only dependency is an engine.\<close>

definition emptyMeta :: addonMeta where
  "emptyMeta = \<lparr> implicit_modules = None, implicit_test_modules = None,
                 renamed_modules = None, renamed_packages = None, order_index = None \<rparr>"



text \<open>A sample v2 addon with a given name and order-index.\<close>

definition sampleAddon :: "string \<Rightarrow> int \<Rightarrow> package" where
  "sampleAddon addonName index =
     Package (js addonName) True True False (emptyMeta \<lparr> order_index := Some index \<rparr>) []
       (\<lambda>n. None)"

text \<open>Exchanging two entries \<open>a\<close> and \<open>b\<close> of a list: \<open>map (exchange a b)\<close>.\<close>

definition exchange :: "'a \<Rightarrow> 'a \<Rightarrow> 'a \<Rightarrow> 'a" where
  "exchange a b d = (if d = a then b else if d = b then a else d)"

text \<open>Which of the four decoders recognize a name, in the order of the dispatcher.\<close>

definition recognizers :: "jsstring \<Rightarrow> bool list" where
  "recognizers filename =
     [prefix externalPrefix filename,
      pairComponentPattern filename \<noteq> None,
      fastbootSwitchPattern filename \<noteq> None,
      decodeImplicitModules filename \<noteq> None]"

definition matchCount :: "jsstring \<Rightarrow> nat" where
  "matchCount filename = length (filter id (recognizers filename))"

text \<open>
  Modelled from the spec: \<open>explicitRelative\<close> is not among the sources. The relativizer
  below is used for the sample names only. For absolute paths it gives the explicit
  relative path of the specification (section 2: a path that starts with \<open>./\<close> or
  \<open>../\<close>): one \<open>..\<close> for each segment of the directory below the common parent, or
  \<open>.\<close> when there is none, then the way down to the directory of the file, then the
  name of the file.
\<close>

fun dropCommonPrefix :: "'a list \<Rightarrow> 'a list \<Rightarrow> 'a list \<times> 'a list" where
  "dropCommonPrefix (x # xs) (y # ys) =
     (if x = y then dropCommonPrefix xs ys else (x # xs, y # ys))"
| "dropCommonPrefix xs ys = (xs, ys)"

definition sampleRelative :: relativizer where
  "sampleRelative fromDir toFile =
     (case dropCommonPrefix (rev (normalizeSegments False fromDir))
                            (rev (normalizeSegments False (dirname toFile))) of
        (ups, downs) \<Rightarrow>
          join_with [slash]
            ((if ups = [] then [dotSegment] else map (\<lambda>seg. dotDotSegment) ups)
             @ downs @ [basename toFile]))"


section \<open>Evaluation on concrete names\<close>

lemmas string_eval = js_def slash_def percent_def comma_def backslash_def lineTerminator_def
  takeWhileEnd_def suffix_to_prefix

lemmas uri_eval = decodeURIComponent_def hexValue_def continuation_def utf16_def
  uriUnreserved_def hexDigit_def hexOctet_def utf8_def highSurrogate_def lowSurrogate_def
  escapeCodePoint_def

lemmas path_eval = resolve_def normalizeString_def normalizeSegments_def normalizeStep_def
  dirname_def basename_def dotSegment_def dotDotSegment_def normalize_def posix_join_def

lemmas sample_eval = sampleRelative_def path_eval string_eval Let_def

section \<open>The order of the addons\<close>

lemma orderAddons_difference:
  "orderAddons a b = effectiveOrderIndex a - effectiveOrderIndex b"
  by (simp add: orderAddons_def effectiveOrderIndex_def orderIndexOr0_def split: option.splits)

lemma insertSorted_orderAddons:
  "insertSorted orderAddons x ys = insort_key effectiveOrderIndex x ys"
  by (induction ys) (simp_all add: orderAddons_difference)

lemma sortBy_orderAddons: "sortBy orderAddons xs = sort_key effectiveOrderIndex xs"
  by (induction xs) (simp_all add: sortBy_def insertSorted_orderAddons)

lemma insort_key_map:
  "\<forall>d\<in>set (x # ys). key (f d) = key d \<Longrightarrow>
   insort_key key (f x) (map f ys) = map f (insort_key key x ys)"
  by (induction ys) auto

lemma sort_key_map:
  "\<forall>d\<in>set xs. key (f d) = key d \<Longrightarrow> sort_key key (map f xs) = map f (sort_key key xs)"
proof (induction xs)
  case Nil
  then show ?case by simp
next
  case (Cons x xs)
  have "\<forall>d\<in>set (x # sort_key key xs). key (f d) = key d"
    using Cons.prems by simp
  then show ?case
    using Cons by (simp add: insort_key_map)
qed

text \<open>
  C8. The aggregator walks the dependencies in the order \<open>sortBy orderAddons\<close>. That
  order is ascending in the order-index (0 when the index is absent or the dependency is
  not a v2 addon), it is a rearrangement of the input, and it is stable: for every index
  \<open>k\<close>, the dependencies of index \<open>k\<close> stand in the output in the order in which they
  stand in the input. So two entries of the same index are never reordered by the sort:
  exchanging them in the input exchanges them in the output and moves nothing else.
\<close>

theorem stable_ordering:
  "aggregate extensions pkg type
     = foldl (addDependency extensions pkg type) \<lparr> lazyModules = [], eagerModules = [] \<rparr>
         (sortBy orderAddons (dependencies pkg))
   \<and> sorted (map effectiveOrderIndex (sortBy orderAddons deps))
   \<and> mset (sortBy orderAddons deps) = mset deps
   \<and> filter (\<lambda>d. effectiveOrderIndex d = k) (sortBy orderAddons deps)
       = filter (\<lambda>d. effectiveOrderIndex d = k) deps
   \<and> (effectiveOrderIndex a = effectiveOrderIndex b \<longrightarrow>
        sortBy orderAddons (map (exchange a b) deps)
          = map (exchange a b) (sortBy orderAddons deps))"
proof -
  have "effectiveOrderIndex a = effectiveOrderIndex b \<Longrightarrow>
        sortBy orderAddons (map (exchange a b) deps)
          = map (exchange a b) (sortBy orderAddons deps)"
    by (simp add: sortBy_orderAddons sort_key_map exchange_def)
  then show ?thesis
    by (simp add: aggregate_def sortBy_orderAddons sort_key_stable)
qed

theorem stable_ordering_witness:
  "effectiveOrderIndex (sampleAddon ''a'' 1) = effectiveOrderIndex (sampleAddon ''b'' 1)
   \<and> sortBy orderAddons [sampleAddon ''a'' 1, sampleAddon ''c'' 0, sampleAddon ''b'' 1]
       = [sampleAddon ''c'' 0, sampleAddon ''a'' 1, sampleAddon ''b'' 1]
   \<and> sortBy orderAddons [sampleAddon ''b'' 1, sampleAddon ''c'' 0, sampleAddon ''a'' 1]
       = [sampleAddon ''c'' 0, sampleAddon ''b'' 1, sampleAddon ''a'' 1]"
proof -
  let ?a = "sampleAddon ''a'' 1" and ?b = "sampleAddon ''b'' 1" and ?c = "sampleAddon ''c'' 0"
  have h: "effectiveOrderIndex ?a = effectiveOrderIndex ?b"
    by (simp add: effectiveOrderIndex_def sampleAddon_def emptyMeta_def)
  have s: "sortBy orderAddons [?a, ?c, ?b] = [?c, ?a, ?b]"
    by (simp add: sortBy_def orderAddons_def orderIndexOr0_def sampleAddon_def emptyMeta_def)
  have x: "map (exchange ?a ?b) [?a, ?c, ?b] = [?b, ?c, ?a]"
    "map (exchange ?a ?b) [?c, ?a, ?b] = [?c, ?b, ?a]"
    by (simp_all add: exchange_def sampleAddon_def js_def)
  note t = stable_ordering[where a = ?a and b = ?b and deps = "[?a, ?c, ?b]",
      THEN conjunct2, THEN conjunct2, THEN conjunct2, THEN conjunct2, rule_format, OF h]
  from t have "sortBy orderAddons [?b, ?c, ?a] = [?c, ?b, ?a]"
    by (simp only: x s)
  with h s show ?thesis by (intro conjI)
qed

section \<open>The manifests\<close>

lemma addDependency_skip:
  "\<not> isV2Addon dep \<or> categorizeDependency pkg (name dep) = Some PeerDependencies
   \<Longrightarrow> addDependency extensions pkg type acc dep = acc"
  by (auto simp add: addDependency_def)

lemma foldl_addDependency_filter:
  "foldl (addDependency extensions pkg type) acc
     (filter (\<lambda>d. categorizeDependency pkg (name d) \<noteq> Some PeerDependencies) deps)
   = foldl (addDependency extensions pkg type) acc deps"
  by (induction deps arbitrary: acc) (simp_all add: addDependency_skip)

lemma addDependency_withDependencies:
  "addDependency extensions (withDependencies pkg deps) = addDependency extensions pkg"
  by (intro ext) (simp add: addDependency_def withDependencies_def)

lemma dependencies_withDependencies: "dependencies (withDependencies pkg deps) = deps"
  by (simp add: withDependencies_def)

text \<open>
  C7. A dependency that the owning package categorizes as a peer dependency contributes
  nothing to the lazy or to the eager manifest: the manifests of a package are those of
  the same package with every peer dependency taken out of its dependency list.
\<close>

theorem peer_exclusion:
  "aggregate extensions pkg type
     = aggregate extensions
         (withDependencies pkg
            (filter (\<lambda>d. categorizeDependency pkg (name d) \<noteq> Some PeerDependencies)
                    (dependencies pkg)))
         type"
  by (simp add: aggregate_def addDependency_withDependencies sortBy_orderAddons
      dependencies_withDependencies filter_sort[symmetric] foldl_addDependency_filter)











section \<open>The generator of the implicit modules\<close>


section \<open>External modules through the dispatcher\<close>

text \<open>
  C10. For every module name, whatever its ending, the dispatcher applied to
  \<open>virtualExternalModule moduleName\<close> renders the external shim of exactly that module
  name: the external prefix is tested before every other decoder.
\<close>

theorem external_roundtrip:
  "virtualContent explicitRelative stripExtensions (virtualExternalModule moduleName) resolver
     = Inr (externalShim moduleName)"
  by (simp add: virtualContent_def virtualExternalModule_def)

section \<open>The fastboot pattern\<close>

lemma fastbootSwitchSuffix_Cons:
  "fastbootSwitchSuffix = slash # tl fastbootSwitchSuffix"
  by (simp add: fastbootSwitchSuffix_def js_def slash_def)

lemma slash_notin_tl_suffix: "slash \<notin> set (tl fastbootSwitchSuffix)"
  by (simp add: fastbootSwitchSuffix_def js_def slash_def)

lemma fastbootSwitchSuffix_no_lineTerminator:
  "\<not> list_ex lineTerminator fastbootSwitchSuffix"
  by (simp add: fastbootSwitchSuffix_def js_def lineTerminator_def)

lemma namesQuery_no_lineTerminator: "\<not> list_ex lineTerminator namesQuery"
  by (simp add: namesQuery_def js_def lineTerminator_def)

lemma slash_notin_namesQuery: "slash \<notin> set namesQuery"
  by (simp add: namesQuery_def js_def slash_def)

lemma fastbootQuery_no_lineTerminator:
  "fastbootQuery after = Some q \<Longrightarrow> \<not> list_ex lineTerminator after"
proof -
  assume a: "fastbootQuery after = Some q"
  show ?thesis
  proof (cases "after = []")
    case True
    then show ?thesis by simp
  next
    case False
    with a have p: "prefix namesQuery after"
      and d: "\<not> list_ex lineTerminator (drop (length namesQuery) after)"
      by (auto simp add: fastbootQuery_def split: if_splits)
    from p have "after = namesQuery @ drop (length namesQuery) after"
      by (auto simp add: prefix_def)
    then have "list_ex lineTerminator after
      = (list_ex lineTerminator namesQuery
         \<or> list_ex lineTerminator (drop (length namesQuery) after))"
      by (metis list_ex_append)
    with d namesQuery_no_lineTerminator show ?thesis by simp
  qed
qed

lemma fastbootQuery_names:
  assumes "n \<noteq> []" "\<not> list_ex lineTerminator n"
  shows "fastbootQuery (namesQuery @ n) = Some (Some n)"
  using assms by (simp add: fastbootQuery_def namesQuery_def js_def)

text \<open>What the decoder reads from a name built by \<open>fastbootSwitch\<close>.\<close>

lemma fastbootAfterOriginal_Some:
  "fastbootAfterOriginal taken rest = Some (orig, q)
   \<longleftrightarrow> (\<exists>after. rest = fastbootSwitchSuffix @ after \<and> orig = rev taken
               \<and> fastbootQuery after = Some q)"
  by (auto simp add: fastbootAfterOriginal_def prefix_def)

lemma fastbootOriginal_sound:
  "fastbootOriginal taken rest = Some (orig, q) \<Longrightarrow>
   \<exists>t after. rest = t @ fastbootSwitchSuffix @ after \<and> orig = rev taken @ t
             \<and> fastbootQuery after = Some q \<and> \<not> list_ex lineTerminator t"
proof (induction rest arbitrary: taken)
  case Nil
  then show ?case by (simp add: fastbootAfterOriginal_Some)
next
  case (Cons c cs)
  show ?case
  proof (cases "\<not> lineTerminator c \<and> fastbootOriginal (c # taken) cs \<noteq> None")
    case True
    with Cons.prems have "fastbootOriginal (c # taken) cs = Some (orig, q)"
      by auto
    from Cons.IH[OF this] obtain t after where
      "cs = t @ fastbootSwitchSuffix @ after" "orig = rev (c # taken) @ t"
      "fastbootQuery after = Some q" "\<not> list_ex lineTerminator t"
      by blast
    with True have "c # cs = (c # t) @ fastbootSwitchSuffix @ after \<and> orig = rev taken @ (c # t)
        \<and> fastbootQuery after = Some q \<and> \<not> list_ex lineTerminator (c # t)"
      by simp
    then show ?thesis by blast
  next
    case False
    with Cons.prems have "fastbootAfterOriginal taken (c # cs) = Some (orig, q)"
      by (auto split: if_splits option.splits)
    then obtain after where "c # cs = [] @ fastbootSwitchSuffix @ after" "orig = rev taken @ []"
      "fastbootQuery after = Some q"
      by (auto simp add: fastbootAfterOriginal_Some)
    then show ?thesis by fastforce
  qed
qed

lemma fastbootMatchAt_sound:
  "fastbootMatchAt s = Some (orig, q) \<Longrightarrow>
   \<exists>after. s = orig @ fastbootSwitchSuffix @ after \<and> orig \<noteq> []
          \<and> fastbootQuery after = Some q \<and> \<not> list_ex lineTerminator orig"
proof -
  assume a: "fastbootMatchAt s = Some (orig, q)"
  then obtain c cs where s: "s = c # cs" and c: "\<not> lineTerminator c"
    and m: "fastbootOriginal [c] cs = Some (orig, q)"
    by (auto simp add: fastbootMatchAt_def split: list.splits if_splits)
  from fastbootOriginal_sound[OF m] obtain t after where
    "cs = t @ fastbootSwitchSuffix @ after" "orig = rev [c] @ t"
    "fastbootQuery after = Some q" "\<not> list_ex lineTerminator t"
    by blast
  with s c show ?thesis by simp
qed

lemma fastbootSwitchPattern_sound:
  "fastbootSwitchPattern s = Some (orig, q) \<Longrightarrow>
   \<exists>pre after. s = pre @ orig @ fastbootSwitchSuffix @ after \<and> orig \<noteq> []
          \<and> fastbootQuery after = Some q \<and> \<not> list_ex lineTerminator orig"
proof (induction s)
  case Nil
  then show ?case by simp
next
  case (Cons c cs)
  show ?case
  proof (cases "fastbootMatchAt (c # cs)")
    case None
    with Cons.prems have "fastbootSwitchPattern cs = Some (orig, q)" by simp
    from Cons.IH[OF this] obtain pre after where
      "cs = pre @ orig @ fastbootSwitchSuffix @ after" "orig \<noteq> []"
      "fastbootQuery after = Some q" "\<not> list_ex lineTerminator orig"
      by blast
    then have "c # cs = (c # pre) @ orig @ fastbootSwitchSuffix @ after \<and> orig \<noteq> []
      \<and> fastbootQuery after = Some q \<and> \<not> list_ex lineTerminator orig"
      by simp
    then show ?thesis by blast
  next
    case (Some groups)
    with Cons.prems have "fastbootMatchAt (c # cs) = Some (orig, q)" by simp
    from fastbootMatchAt_sound[OF this] obtain after where
      "c # cs = [] @ orig @ fastbootSwitchSuffix @ after" "orig \<noteq> []"
      "fastbootQuery after = Some q" "\<not> list_ex lineTerminator orig"
      by auto
    then show ?thesis by blast
  qed
qed


lemma sublist_after_slashfree:
  assumes "slash \<notin> set p" "sublist fastbootSwitchSuffix (p @ n)"
  shows "sublist fastbootSwitchSuffix n"
proof -
  from assms(2) obtain u v where "p @ n = u @ fastbootSwitchSuffix @ v"
    by (auto simp add: sublist_def)
  then obtain w where w: "p = u @ w \<and> w @ n = fastbootSwitchSuffix @ v
      \<or> p @ w = u \<and> n = w @ fastbootSwitchSuffix @ v"
    by (auto simp add: append_eq_append_conv2)
  show ?thesis
  proof (cases "p = u @ w \<and> w @ n = fastbootSwitchSuffix @ v")
    case True
    show ?thesis
    proof (cases w)
      case Nil
      with True show ?thesis by simp
    next
      case (Cons a w')
      with True have "a # w' @ n = slash # tl fastbootSwitchSuffix @ v"
        using fastbootSwitchSuffix_Cons by (metis append_Cons)
      then have "a = slash" by simp
      with True Cons assms(1) show ?thesis by simp
    qed
  next
    case False
    with w show ?thesis by auto
  qed
qed

lemma not_sublist_slashfree: "slash \<notin> set after \<Longrightarrow> \<not> sublist fastbootSwitchSuffix after"
  using set_mono_sublist[of fastbootSwitchSuffix after] fastbootSwitchSuffix_Cons
  by (metis list.set_intros(1) subsetD)

lemma not_sublist_no_underscore:
  assumes "(0x5F :: jschar) \<notin> set after"
  shows "\<not> sublist fastbootSwitchSuffix after"
proof
  assume "sublist fastbootSwitchSuffix after"
  then have "set fastbootSwitchSuffix \<subseteq> set after" by (rule set_mono_sublist)
  moreover have "(0x5F :: jschar) \<in> set fastbootSwitchSuffix"
    by (simp add: fastbootSwitchSuffix_def js_def)
  ultimately show False using assms by auto
qed

lemma fastbootOriginal_later_None:
  assumes "\<not> sublist fastbootSwitchSuffix after"
  shows "fastbootOriginal taken (tl fastbootSwitchSuffix @ after) = None"
proof (rule ccontr)
  assume "fastbootOriginal taken (tl fastbootSwitchSuffix @ after) \<noteq> None"
  then obtain orig q where "fastbootOriginal taken (tl fastbootSwitchSuffix @ after) = Some (orig, q)"
    by auto
  from fastbootOriginal_sound[OF this] obtain t after' where
    "tl fastbootSwitchSuffix @ after = t @ fastbootSwitchSuffix @ after'" by blast
  then have "sublist fastbootSwitchSuffix (tl fastbootSwitchSuffix @ after)"
    by (metis sublist_appendI)
  from sublist_after_slashfree[OF slash_notin_tl_suffix this] assms show False by simp
qed

lemma fastbootOriginal_complete:
  assumes "\<not> list_ex lineTerminator t" "fastbootQuery after = Some q"
    "\<not> sublist fastbootSwitchSuffix after"
  shows "fastbootOriginal taken (t @ fastbootSwitchSuffix @ after) = Some (rev taken @ t, q)"
  using assms(1)
proof (induction t arbitrary: taken)
  case Nil
  have s: "fastbootSwitchSuffix @ after = slash # (tl fastbootSwitchSuffix @ after)"
    using fastbootSwitchSuffix_Cons by (metis append_Cons)
  have "fastbootAfterOriginal taken (fastbootSwitchSuffix @ after) = Some (rev taken, q)"
    using assms(2) by (simp add: fastbootAfterOriginal_Some)
  then have "fastbootAfterOriginal taken (slash # (tl fastbootSwitchSuffix @ after)) = Some (rev taken, q)"
    using s by simp
  then have "fastbootOriginal taken (slash # (tl fastbootSwitchSuffix @ after)) = Some (rev taken, q)"
    by (simp add: fastbootOriginal_later_None[OF assms(3)])
  then show ?case by (simp only: append_Nil append_Nil2 s)
next
  case (Cons c t)
  then have "fastbootOriginal (c # taken) (t @ fastbootSwitchSuffix @ after)
             = Some (rev (c # taken) @ t, q)"
    by simp
  with Cons.prems show ?case by simp
qed

lemma fastbootMatchAt_complete:
  assumes "orig \<noteq> []" "\<not> list_ex lineTerminator orig" "fastbootQuery after = Some q"
    "\<not> sublist fastbootSwitchSuffix after"
  shows "fastbootMatchAt (orig @ fastbootSwitchSuffix @ after) = Some (orig, q)"
proof -
  from assms(1) obtain c t where o: "orig = c # t" by (cases orig) auto
  with assms(2) have "\<not> lineTerminator c" "\<not> list_ex lineTerminator t" by simp_all
  with fastbootOriginal_complete[OF this(2) assms(3,4), of "[c]"] o
  show ?thesis by (simp add: fastbootMatchAt_def)
qed

lemma fastbootMatchAt_lineTerminator_None:
  assumes "list_ex lineTerminator s"
  shows "fastbootMatchAt s = None"
proof (rule ccontr)
  assume "fastbootMatchAt s \<noteq> None"
  then obtain orig q where "fastbootMatchAt s = Some (orig, q)" by auto
  from fastbootMatchAt_sound[OF this] obtain after where
    s: "s = orig @ fastbootSwitchSuffix @ after" and "fastbootQuery after = Some q"
    and "\<not> list_ex lineTerminator orig"
    by blast
  then have "\<not> list_ex lineTerminator s"
    using fastbootQuery_no_lineTerminator fastbootSwitchSuffix_no_lineTerminator
    by (simp add: s)
  with assms show False by simp
qed

lemma fastbootSwitchPattern_skip:
  assumes "pre = [] \<or> lineTerminator (last pre)"
  shows "fastbootSwitchPattern (pre @ s) = fastbootSwitchPattern s"
  using assms
proof (induction pre)
  case Nil
  then show ?case by simp
next
  case (Cons c pre)
  then have l: "lineTerminator (last (c # pre))" by simp
  then have "list_ex lineTerminator (c # pre @ s)"
    by (metis Cons.prems append_Cons last_in_set list.distinct(1) list_ex_append list_ex_iff)
  then have m: "fastbootMatchAt (c # pre @ s) = None"
    by (rule fastbootMatchAt_lineTerminator_None)
  have "pre = [] \<or> lineTerminator (last pre)" using l by (cases pre) auto
  from Cons.IH[OF this] m show ?case by simp
qed

lemma fastbootSwitchPattern_complete:
  assumes "pre = [] \<or> lineTerminator (last pre)"
    "orig \<noteq> []" "\<not> list_ex lineTerminator orig" "fastbootQuery after = Some q"
    "\<not> sublist fastbootSwitchSuffix after"
  shows "fastbootSwitchPattern (pre @ orig @ fastbootSwitchSuffix @ after) = Some (orig, q)"
proof -
  from assms(2) obtain c t where o: "orig = c # t" by (cases orig) auto
  have "fastbootSwitchPattern (orig @ fastbootSwitchSuffix @ after) = Some (orig, q)"
    using fastbootMatchAt_complete[OF assms(2-5)] by (simp add: o)
  then show ?thesis
    using fastbootSwitchPattern_skip[OF assms(1)] by simp
qed

section \<open>Exclusivity of the decoders\<close>

lemma suffix_last: "suffix xs s \<Longrightarrow> xs \<noteq> [] \<Longrightarrow> last s = last xs"
  by (auto simp add: suffix_def)

lemma pairComponentPattern_suffix:
  "pairComponentPattern f \<noteq> None \<Longrightarrow> suffix pairComponentMarker f"
  by (simp add: pairComponentPattern_def split: if_splits)

lemma decodeImplicitModules_suffix:
  "decodeImplicitModules f \<noteq> None \<Longrightarrow>
   suffix implicitModulesSuffix f \<or> suffix implicitTestModulesSuffix f"
  by (simp add: decodeImplicitModules_def split: if_splits)

lemma fastbootQuery_None_iff: "fastbootQuery rest = Some None \<longleftrightarrow> rest = []"
  by (simp add: fastbootQuery_def)

lemma fastbootSwitchPattern_no_query_suffix:
  assumes "fastbootSwitchPattern f = Some (orig, None)"
  shows "suffix fastbootSwitchSuffix f"
proof -
  from fastbootSwitchPattern_sound[OF assms] obtain pre after where
    "f = pre @ orig @ fastbootSwitchSuffix @ after" "fastbootQuery after = Some None"
    by blast
  then have "f = (pre @ orig) @ fastbootSwitchSuffix"
    by (simp add: fastbootQuery_None_iff)
  then show ?thesis by (metis suffixI)
qed

lemma last_markers:
  "last pairComponentMarker = 0x74" "pairComponentMarker \<noteq> []"
  "last fastbootSwitchSuffix = 0x68" "fastbootSwitchSuffix \<noteq> []"
  "last implicitModulesSuffix = 0x73" "implicitModulesSuffix \<noteq> []"
  "last implicitTestModulesSuffix = 0x73" "implicitTestModulesSuffix \<noteq> []"
  by (simp_all add: pairComponentMarker_def fastbootSwitchSuffix_def implicitModulesSuffix_def
      implicitTestModulesSuffix_def js_def)

text \<open>
  C3, as the code has it. A name that does not start with the external prefix, and that
  the fastboot pattern does not match with a \<open>?names=\<close> query, is recognized by at most
  one of the four decoders. (The external prefix constrains only the start of a name, and
  a \<open>?names=\<close> query leaves its end free, so that such a name can also end in the marker
  of another kind; the order of the dispatcher then decides.)
\<close>

theorem decoder_exclusivity:
  assumes "\<not> prefix externalPrefix filename"
    and "map_option snd (fastbootSwitchPattern filename) \<in> {None, Some None}"
  shows "matchCount filename \<le> 1"
proof -
  have p: "last filename \<noteq> 0x74 \<Longrightarrow> pairComponentPattern filename = None"
    using pairComponentPattern_suffix suffix_last last_markers by metis
  have i: "last filename \<noteq> 0x73 \<Longrightarrow> decodeImplicitModules filename = None"
    using decodeImplicitModules_suffix suffix_last last_markers by metis
  have f: "last filename \<noteq> 0x68 \<Longrightarrow> fastbootSwitchPattern filename = None"
  proof (rule ccontr)
    assume l: "last filename \<noteq> 0x68"
    assume "fastbootSwitchPattern filename \<noteq> None"
    then obtain orig q where m: "fastbootSwitchPattern filename = Some (orig, q)" by auto
    with assms(2) have "q = None" by auto
    with m have "suffix fastbootSwitchSuffix filename"
      using fastbootSwitchPattern_no_query_suffix by simp
    then have "last filename = 0x68" using suffix_last last_markers by metis
    with l show False by simp
  qed
  consider "last filename = 0x74" | "last filename = 0x68"
    | "last filename \<noteq> 0x74 \<and> last filename \<noteq> 0x68"
    by blast
  then show ?thesis
  proof cases
    case 1
    then have "fastbootSwitchPattern filename = None" "decodeImplicitModules filename = None"
      using f i by simp_all
    with assms(1) show ?thesis by (simp add: matchCount_def recognizers_def)
  next
    case 2
    then have "pairComponentPattern filename = None" "decodeImplicitModules filename = None"
      using p i by simp_all
    with assms(1) show ?thesis by (simp add: matchCount_def recognizers_def)
  next
    case 3
    then have "pairComponentPattern filename = None" "fastbootSwitchPattern filename = None"
      using p f by simp_all
    with assms(1) show ?thesis by (simp add: matchCount_def recognizers_def)
  qed
qed

lemma fastbootSwitchPattern_plain:
  assumes "orig \<noteq> []" "\<not> list_ex lineTerminator orig"
  shows "fastbootSwitchPattern (orig @ fastbootSwitchSuffix) = Some (orig, None)"
  using fastbootSwitchPattern_complete[of "[]" orig "[]" None] assms last_markers(4)
  by (simp add: fastbootQuery_def)

theorem decoder_exclusivity_witness:
  "\<not> prefix externalPrefix (js ''/pkg/thing'' @ fastbootSwitchSuffix)
   \<and> map_option snd (fastbootSwitchPattern (js ''/pkg/thing'' @ fastbootSwitchSuffix)) = Some None
   \<and> matchCount (js ''/pkg/thing'' @ fastbootSwitchSuffix) \<le> 1"
proof -
  have a: "\<not> prefix externalPrefix (js ''/pkg/thing'' @ fastbootSwitchSuffix)"
    by (simp add: externalPrefix_def js_def)
  have "fastbootSwitchPattern (js ''/pkg/thing'' @ fastbootSwitchSuffix)
        = Some (js ''/pkg/thing'', None)"
    by (rule fastbootSwitchPattern_plain) (simp_all add: js_def lineTerminator_def)
  then have b: "map_option snd (fastbootSwitchPattern (js ''/pkg/thing'' @ fastbootSwitchSuffix))
        = Some None"
    by simp
  then have "map_option snd (fastbootSwitchPattern (js ''/pkg/thing'' @ fastbootSwitchSuffix))
        \<in> {None, Some None}"
    by simp
  from decoder_exclusivity[OF a this] a b show ?thesis by simp
qed

lemma fastboot_pair_overlap:
  "fastbootSwitchPattern
     (js ''/a'' @ fastbootSwitchSuffix @ namesQuery @ js ''x/y'' @ pairComponentMarker)
     = Some (js ''/a'', Some (js ''x/y'' @ pairComponentMarker))
   \<and> pairComponentPattern
       (js ''/a'' @ fastbootSwitchSuffix @ namesQuery @ js ''x/y'' @ pairComponentMarker)
     = Some (js ''/a'' @ fastbootSwitchSuffix @ namesQuery @ js ''x'', js ''y'')
   \<and> \<not> matchCount
         (js ''/a'' @ fastbootSwitchSuffix @ namesQuery @ js ''x/y'' @ pairComponentMarker)
       \<le> 1"
proof -
  let ?f = "js ''/a'' @ fastbootSwitchSuffix @ namesQuery @ js ''x/y'' @ pairComponentMarker"
  have q: "fastbootQuery (namesQuery @ js ''x/y'' @ pairComponentMarker)
      = Some (Some (js ''x/y'' @ pairComponentMarker))"
    by (rule fastbootQuery_names) (simp_all add: pairComponentMarker_def string_eval)
  have n: "\<not> sublist fastbootSwitchSuffix (namesQuery @ js ''x/y'' @ pairComponentMarker)"
    by (rule not_sublist_no_underscore)
       (simp add: namesQuery_def pairComponentMarker_def js_def)
  have a: "fastbootSwitchPattern ?f = Some (js ''/a'', Some (js ''x/y'' @ pairComponentMarker))"
    using fastbootSwitchPattern_complete[of "[]" "js ''/a''", OF _ _ _ q n]
    by (simp add: string_eval)
  have b: "pairComponentPattern ?f
     = Some (js ''/a'' @ fastbootSwitchSuffix @ namesQuery @ js ''x'', js ''y'')"
    by (simp add: pairComponentPattern_def fastbootSwitchSuffix_def namesQuery_def
        pairComponentMarker_def string_eval Let_def)
  from a b show ?thesis by (simp add: matchCount_def recognizers_def)
qed

text \<open>
  C3, as the claim words it, fails: the name \<open>/@embroider/external/x/y/embroider-pair-component\<close>
  is recognized by the external prefix and by the paired-component pattern; and the name
  \<open>/a/embroider_fastboot_switch?names=x/y/embroider-pair-component\<close>, which does not start
  with the external prefix, is recognized by the fastboot pattern and by the
  paired-component pattern.
\<close>

theorem decoder_exclusivity_counterexample:
  "prefix externalPrefix (externalPrefix @ js ''x/y'' @ pairComponentMarker)
   \<and> pairComponentPattern (externalPrefix @ js ''x/y'' @ pairComponentMarker)
       = Some (externalPrefix @ js ''x'', js ''y'')
   \<and> \<not> matchCount (externalPrefix @ js ''x/y'' @ pairComponentMarker) \<le> 1
   \<and> fastbootSwitchPattern
       (js ''/a'' @ fastbootSwitchSuffix @ namesQuery @ js ''x/y'' @ pairComponentMarker)
     = Some (js ''/a'', Some (js ''x/y'' @ pairComponentMarker))
   \<and> pairComponentPattern
       (js ''/a'' @ fastbootSwitchSuffix @ namesQuery @ js ''x/y'' @ pairComponentMarker)
     = Some (js ''/a'' @ fastbootSwitchSuffix @ namesQuery @ js ''x'', js ''y'')
   \<and> \<not> matchCount
         (js ''/a'' @ fastbootSwitchSuffix @ namesQuery @ js ''x/y'' @ pairComponentMarker)
       \<le> 1"
proof -
  have a: "pairComponentPattern (externalPrefix @ js ''x/y'' @ pairComponentMarker)
       = Some (externalPrefix @ js ''x'', js ''y'')"
    by (simp add: pairComponentPattern_def externalPrefix_def pairComponentMarker_def
        string_eval Let_def)
  then have "prefix externalPrefix (externalPrefix @ js ''x/y'' @ pairComponentMarker)
   \<and> pairComponentPattern (externalPrefix @ js ''x/y'' @ pairComponentMarker)
       = Some (externalPrefix @ js ''x'', js ''y'')
   \<and> \<not> matchCount (externalPrefix @ js ''x/y'' @ pairComponentMarker) \<le> 1"
    by (simp add: matchCount_def recognizers_def)
  with fastboot_pair_overlap show ?thesis by (intro conjI) simp_all
qed

section \<open>Totality of the decoders, and the contract of the dispatcher\<close>

lemma decodeURIComponent_error: "decodeURIComponent s = Inl e \<Longrightarrow> e = URIError"
  by (auto simp add: decodeURIComponent_def split: option.splits)

lemma decodeVirtualPairComponent_error:
  "decodeVirtualPairComponent explicitRelative filename = Inl e \<Longrightarrow> e = URIError"
  by (auto simp add: decodeVirtualPairComponent_def Let_def decodeURIComponent_error
      split: option.splits sum.splits)

text \<open>
  C5, as the code has it. The paired-component decoder returns \<open>null\<close> exactly when its
  pattern does not match. When the pattern matches, it returns the decoded parameters if
  the \<open>jsModule\<close> segment is well-formed percent-encoding, and it throws \<open>URIError\<close> if
  the segment is malformed; it throws nothing else. The fastboot decoder and the
  implicit-modules decoder hold no operation that throws: they return their parameters,
  or \<open>undefined\<close> exactly when the pattern, or each of the two suffixes, does not match.
\<close>

theorem decode_totality:
  "(decodeVirtualPairComponent explicitRelative filename = Inr None)
     = (pairComponentPattern filename = None)
   \<and> (decodeVirtualPairComponent explicitRelative filename = Inl URIError)
     = (\<exists>hbsModule jsModule. pairComponentPattern filename = Some (hbsModule, jsModule)
          \<and> decodeURIComponent jsModule = Inl URIError)
   \<and> (\<exists>match. decodeVirtualPairComponent explicitRelative filename = Inr (Some match))
     = (\<exists>hbsModule jsModule decoded. pairComponentPattern filename = Some (hbsModule, jsModule)
          \<and> decodeURIComponent jsModule = Inr decoded)
   \<and> decodeVirtualPairComponent explicitRelative filename \<noteq> Inl (NotVirtualFile other)
   \<and> decodeVirtualPairComponent explicitRelative filename \<noteq> Inl (ImplicitModulesBug other)
   \<and> (decodeFastbootSwitch filename = None) = (fastbootSwitchPattern filename = None)
   \<and> (decodeImplicitModules filename = None)
     = (\<not> suffix implicitModulesSuffix filename \<and> \<not> suffix implicitTestModulesSuffix filename)"
proof -
  have a: "(decodeVirtualPairComponent explicitRelative filename = Inr None)
     = (pairComponentPattern filename = None)"
    by (auto simp add: decodeVirtualPairComponent_def Let_def split: option.splits sum.splits)
  have b: "(decodeVirtualPairComponent explicitRelative filename = Inl URIError)
     = (\<exists>hbsModule jsModule. pairComponentPattern filename = Some (hbsModule, jsModule)
          \<and> decodeURIComponent jsModule = Inl URIError)"
    by (auto simp add: decodeVirtualPairComponent_def Let_def
        split: option.splits sum.splits dest: decodeURIComponent_error)
  have c: "(\<exists>match. decodeVirtualPairComponent explicitRelative filename = Inr (Some match))
     = (\<exists>hbsModule jsModule decoded. pairComponentPattern filename = Some (hbsModule, jsModule)
          \<and> decodeURIComponent jsModule = Inr decoded)"
    by (auto simp add: decodeVirtualPairComponent_def Let_def split: option.splits sum.splits)
  have d: "decodeVirtualPairComponent explicitRelative filename \<noteq> Inl (NotVirtualFile other)"
    "decodeVirtualPairComponent explicitRelative filename \<noteq> Inl (ImplicitModulesBug other)"
    using decodeVirtualPairComponent_error by fastforce+
  have e: "(decodeFastbootSwitch filename = None) = (fastbootSwitchPattern filename = None)"
    by (auto simp add: decodeFastbootSwitch_def Let_def split: option.splits)
  have f: "(decodeImplicitModules filename = None)
     = (\<not> suffix implicitModulesSuffix filename \<and> \<not> suffix implicitTestModulesSuffix filename)"
    by (simp add: decodeImplicitModules_def)
  from a b c d e f show ?thesis by (intro conjI)
qed

text \<open>
  C5, as the claim words it, fails: in \<open>/a/%/embroider-pair-component\<close> the segment \<open>%\<close>
  is malformed, and the paired-component decoder throws \<open>URIError\<close>.
\<close>

theorem decode_totality_counterexample:
  "decodeVirtualPairComponent sampleRelative (js ''/a/%/embroider-pair-component'')
     = Inl URIError"
  by (simp add: decodeVirtualPairComponent_def pairComponentPattern_def pairComponentMarker_def
      string_eval uri_eval Let_def)







section \<open>The round trip of the fastboot switch\<close>

lemma split_on_no_separator: "c \<notin> set x \<Longrightarrow> split_on c x = [x]"
  by (induction x) auto

lemma split_on_append_separator:
  "c \<notin> set x \<Longrightarrow> split_on c (x @ c # rest) = x # split_on c rest"
  by (induction x) auto

lemma split_on_join_with:
  "names \<noteq> [] \<Longrightarrow> \<forall>n\<in>set names. c \<notin> set n \<Longrightarrow> split_on c (join_with [c] names) = names"
proof (induction "[c]" names rule: join_with.induct)
  case 1
  then show ?case by simp
next
  case (2 x)
  then show ?case by (simp add: split_on_no_separator)
next
  case (3 x y ys)
  then show ?case by (simp add: split_on_append_separator)
qed

lemma set_join_with: "set (join_with sep names) \<subseteq> set sep \<union> \<Union> (set ` set names)"
  by (induction sep names rule: join_with.induct) auto

lemma join_with_Nil_iff: "join_with [c] names = [] \<longleftrightarrow> names = [] \<or> names = [[]]"
  by (induction "[c]" names rule: join_with.induct) auto

lemma resolve_nonempty: "resolve cwd args \<noteq> []"
  by (simp add: resolve_def Let_def dotSegment_def js_def split: prod.splits)

lemma takeWhileEnd_split:
  "xs = rev (dropWhile P (rev xs)) @ takeWhileEnd P xs"
  by (metis rev_append rev_rev_ident takeWhileEnd_def takeWhile_dropWhile_id)

lemma takeWhileEnd_all: "\<not> list_ex (\<lambda>c. \<not> P c) (takeWhileEnd P xs)"
  by (auto simp add: takeWhileEnd_def list_ex_iff dest: set_takeWhileD)

lemma takeWhileEnd_nonempty: "xs \<noteq> [] \<Longrightarrow> P (last xs) \<Longrightarrow> takeWhileEnd P xs \<noteq> []"
  by (cases xs rule: rev_cases) (auto simp add: takeWhileEnd_def)

lemma dropWhile_rev_last:
  "rev (dropWhile P (rev xs)) = [] \<or> \<not> P (last (rev (dropWhile P (rev xs))))"
  by (metis hd_dropWhile last_rev rev_is_Nil_conv)

lemma decodeFastbootSwitch_built:
  assumes "r \<noteq> []" "\<not> lineTerminator (last r)"
    and "q = (if names = [] then [] else namesQuery @ join_with [comma] names)"
    and "names \<noteq> [[]]"
    and "\<forall>n\<in>set names. \<not> list_ex lineTerminator n"
    and "\<not> sublist fastbootSwitchSuffix (join_with [comma] names)"
  shows "decodeFastbootSwitch (r @ fastbootSwitchSuffix @ q)
    = (let parts = (if names = [] then [] else split_on comma (join_with [comma] names))
       in Some \<lparr> fb_names = filter (\<lambda>name. name \<noteq> defaultName) parts,
                 fb_hasDefaultExport = (defaultName \<in> set parts),
                 fb_filename = takeWhileEnd (\<lambda>c. \<not> lineTerminator c) r \<rparr>)"
proof -
  let ?pre = "rev (dropWhile (\<lambda>c. \<not> lineTerminator c) (rev r))"
  let ?orig = "takeWhileEnd (\<lambda>c. \<not> lineTerminator c) r"
  let ?N = "join_with [comma] names"
  have r: "r = ?pre @ ?orig" by (rule takeWhileEnd_split)
  have pre: "?pre = [] \<or> lineTerminator (last ?pre)"
    using dropWhile_rev_last[of "\<lambda>c. \<not> lineTerminator c" r] by simp
  have o1: "?orig \<noteq> []" using assms(1,2) by (simp add: takeWhileEnd_nonempty)
  have o2: "\<not> list_ex lineTerminator ?orig"
    using takeWhileEnd_all[of "\<lambda>c. \<not> lineTerminator c" r] by simp
  have setN: "set ?N \<subseteq> {comma} \<union> \<Union> (set ` set names)"
    using set_join_with[of "[comma]" names] by simp
  have ltN: "\<not> list_ex lineTerminator ?N"
  proof
    assume "list_ex lineTerminator ?N"
    then obtain c where c: "c \<in> set ?N" "lineTerminator c" by (auto simp add: list_ex_iff)
    with setN have "c = comma \<or> (\<exists>n\<in>set names. c \<in> set n)" by auto
    with c(2) assms(5) show False
      by (auto simp add: list_ex_iff comma_def lineTerminator_def)
  qed
  have query: "fastbootQuery q = Some (if names = [] then None else Some ?N)"
  proof (cases "names = []")
    case True
    with assms(3) show ?thesis by (simp add: fastbootQuery_def)
  next
    case False
    with assms(4) have "?N \<noteq> []" by (simp add: join_with_Nil_iff)
    with False assms(3) ltN show ?thesis by (simp add: fastbootQuery_names)
  qed
  have slq: "\<not> sublist fastbootSwitchSuffix q"
  proof (cases "names = []")
    case True
    with assms(3) last_markers(4) show ?thesis by simp
  next
    case False
    with assms(3) have "q = namesQuery @ ?N" by simp
    with assms(6) sublist_after_slashfree[OF slash_notin_namesQuery, of ?N]
    show ?thesis by auto
  qed
  have "fastbootSwitchPattern (?pre @ ?orig @ fastbootSwitchSuffix @ q)
        = Some (?orig, if names = [] then None else Some ?N)"
    by (rule fastbootSwitchPattern_complete[OF pre o1 o2 query slq])
  then have "fastbootSwitchPattern (r @ fastbootSwitchSuffix @ q)
        = Some (?orig, if names = [] then None else Some ?N)"
    using r by (metis append_assoc)
  then show ?thesis
    by (simp add: decodeFastbootSwitch_def Let_def)
qed

lemma fastbootSwitch_shape:
  "fastbootSwitch cwd specifier fromFile names
   = resolve cwd [dirname fromFile, specifier] @ fastbootSwitchSuffix
       @ (if names = [] then [] else namesQuery @ join_with [comma] names)"
  by (simp add: fastbootSwitch_def Let_def)

text \<open>
  C2, as the code has it. Let the resolved path not end in a line terminator, let no name
  hold a comma or a line terminator, let the suffix \<open>/embroider_fastboot_switch\<close> not
  occur in the names joined by commas, and let the set of names not be the singleton of
  the empty name. Then decoding the name built by \<open>fastbootSwitch\<close> gives
  the names of the set in their order, without \<open>default\<close>, and \<open>hasDefaultExport\<close> tells
  whether \<open>default\<close> is in the set. And whenever the pattern matches a name without a
  \<open>?names=\<close> query, the decoded list is empty and \<open>hasDefaultExport\<close> is false.
\<close>

theorem fastboot_roundtrip:
  "(\<not> lineTerminator (last (resolve cwd [dirname fromFile, specifier]))
    \<and> (\<forall>n\<in>set names. comma \<notin> set n \<and> \<not> list_ex lineTerminator n)
    \<and> \<not> sublist fastbootSwitchSuffix (join_with [comma] names)
    \<and> names \<noteq> [[]]
    \<longrightarrow> decodeFastbootSwitch (fastbootSwitch cwd specifier fromFile names)
        = Some \<lparr> fb_names = filter (\<lambda>name. name \<noteq> defaultName) names,
                 fb_hasDefaultExport = (defaultName \<in> set names),
                 fb_filename = takeWhileEnd (\<lambda>c. \<not> lineTerminator c)
                                 (resolve cwd [dirname fromFile, specifier]) \<rparr>)
   \<and> (fastbootSwitchPattern filename = Some (original, None)
    \<longrightarrow> decodeFastbootSwitch filename
        = Some \<lparr> fb_names = [], fb_hasDefaultExport = False, fb_filename = original \<rparr>)"
proof (intro conjI impI)
  assume a: "\<not> lineTerminator (last (resolve cwd [dirname fromFile, specifier]))
    \<and> (\<forall>n\<in>set names. comma \<notin> set n \<and> \<not> list_ex lineTerminator n)
    \<and> \<not> sublist fastbootSwitchSuffix (join_with [comma] names)
    \<and> names \<noteq> [[]]"
  let ?r = "resolve cwd [dirname fromFile, specifier]"
  have five: "\<forall>n\<in>set names. \<not> list_ex lineTerminator n"
    using a by blast
  have six: "\<not> sublist fastbootSwitchSuffix (join_with [comma] names)"
    using a by blast
  have parts: "(if names = [] then [] else split_on comma (join_with [comma] names)) = names"
    using a by (simp add: split_on_join_with)
  have "decodeFastbootSwitch (?r @ fastbootSwitchSuffix
          @ (if names = [] then [] else namesQuery @ join_with [comma] names))
    = (let parts = (if names = [] then [] else split_on comma (join_with [comma] names))
       in Some \<lparr> fb_names = filter (\<lambda>name. name \<noteq> defaultName) parts,
                 fb_hasDefaultExport = (defaultName \<in> set parts),
                 fb_filename = takeWhileEnd (\<lambda>c. \<not> lineTerminator c) ?r \<rparr>)"
    using a by (intro decodeFastbootSwitch_built[OF resolve_nonempty _ refl _ five six]) simp_all
  then show "decodeFastbootSwitch (fastbootSwitch cwd specifier fromFile names)
        = Some \<lparr> fb_names = filter (\<lambda>name. name \<noteq> defaultName) names,
                 fb_hasDefaultExport = (defaultName \<in> set names),
                 fb_filename = takeWhileEnd (\<lambda>c. \<not> lineTerminator c) ?r \<rparr>"
    by (simp only: fastbootSwitch_shape parts Let_def)
next
  assume "fastbootSwitchPattern filename = Some (original, None)"
  then show "decodeFastbootSwitch filename
        = Some \<lparr> fb_names = [], fb_hasDefaultExport = False, fb_filename = original \<rparr>"
    by (simp add: decodeFastbootSwitch_def)
qed


lemma sample_resolve:
  "resolve (js ''/'') [dirname (js ''/pkg/index.js''), js ''./thing''] = js ''/pkg/thing''"
  by (simp add: path_eval string_eval Let_def)

theorem fastboot_roundtrip_witness:
  "decodeFastbootSwitch
      (fastbootSwitch (js ''/'') (js ''./thing'') (js ''/pkg/index.js'')
         [js ''default'', js ''bar''])
     = Some \<lparr> fb_names = [js ''bar''], fb_hasDefaultExport = True,
               fb_filename = js ''/pkg/thing'' \<rparr>
   \<and> decodeFastbootSwitch (js ''/pkg/thing'' @ fastbootSwitchSuffix)
     = Some \<lparr> fb_names = [], fb_hasDefaultExport = False, fb_filename = js ''/pkg/thing'' \<rparr>"
proof -
  have h: "\<not> lineTerminator (last (resolve (js ''/'') [dirname (js ''/pkg/index.js''), js ''./thing'']))
    \<and> (\<forall>n\<in>set [js ''default'', js ''bar''].
          comma \<notin> set n \<and> \<not> list_ex lineTerminator n)
    \<and> \<not> sublist fastbootSwitchSuffix (join_with [comma] [js ''default'', js ''bar''])
    \<and> [js ''default'', js ''bar''] \<noteq> [[]]"
  proof -
    have "\<not> sublist fastbootSwitchSuffix (join_with [comma] [js ''default'', js ''bar''])"
      by (rule not_sublist_no_underscore) (simp add: string_eval)
    then show ?thesis
      by (simp add: sample_resolve) (simp add: string_eval)
  qed
  have p: "fastbootSwitchPattern (js ''/pkg/thing'' @ fastbootSwitchSuffix)
        = Some (js ''/pkg/thing'', None)"
    by (rule fastbootSwitchPattern_plain) (simp_all add: js_def lineTerminator_def)
  note a = fastboot_roundtrip[where cwd = "js ''/''" and specifier = "js ''./thing''"
      and fromFile = "js ''/pkg/index.js''" and names = "[js ''default'', js ''bar'']",
      THEN conjunct1, rule_format, OF h]
  note b = fastboot_roundtrip[where filename = "js ''/pkg/thing'' @ fastbootSwitchSuffix"
      and original = "js ''/pkg/thing''", THEN conjunct2, rule_format, OF p]
  have t: "takeWhileEnd (\<lambda>c. \<not> lineTerminator c) (js ''/pkg/thing'') = js ''/pkg/thing''"
    by (simp add: string_eval)
  have d: "js ''bar'' \<noteq> defaultName" "filter (\<lambda>name. name \<noteq> defaultName) [js ''default'', js ''bar''] = [js ''bar'']"
    "defaultName \<in> set [js ''default'', js ''bar'']"
    by (simp_all add: defaultName_def js_def)
  have e: "js ''default'' = defaultName" by (simp add: defaultName_def)
  from a b show ?thesis by (simp add: sample_resolve t d e)
qed

lemma takeWhileEnd_length:
  assumes "\<forall>x\<in>set w. P x"
  shows "length w \<le> length (takeWhileEnd P (pre @ w))"
proof -
  have "takeWhile P (rev w @ rev pre) = rev w @ takeWhile P (rev pre)"
    using assms by (subst takeWhile_append2) auto
  then show ?thesis by (simp add: takeWhileEnd_def)
qed

lemma fastbootSwitchPattern_needs_tail:
  assumes "fastbootSwitchPattern s = Some (orig, q)"
  shows "length fastbootSwitchSuffix < length (takeWhileEnd (\<lambda>c. \<not> lineTerminator c) s)"
proof -
  from fastbootSwitchPattern_sound[OF assms] obtain pre after where
    s: "s = pre @ orig @ fastbootSwitchSuffix @ after" and o: "orig \<noteq> []"
    and q: "fastbootQuery after = Some q" and l: "\<not> list_ex lineTerminator orig"
    by blast
  have "\<not> list_ex lineTerminator (orig @ fastbootSwitchSuffix @ after)"
    using l fastbootQuery_no_lineTerminator[OF q] fastbootSwitchSuffix_no_lineTerminator
    by simp
  then have "\<forall>x\<in>set (orig @ fastbootSwitchSuffix @ after). \<not> lineTerminator x"
    by (simp add: list_ex_iff)
  from takeWhileEnd_length[OF this, of pre]
  have "length (orig @ fastbootSwitchSuffix @ after)
        \<le> length (takeWhileEnd (\<lambda>c. \<not> lineTerminator c) s)"
    by (simp only: s)
  with o show ?thesis by (cases orig) simp_all
qed

lemma fastbootSwitchPattern_short_tail:
  "length (takeWhileEnd (\<lambda>c. \<not> lineTerminator c) s) \<le> length fastbootSwitchSuffix
   \<Longrightarrow> fastbootSwitchPattern s = None"
  using fastbootSwitchPattern_needs_tail[of s] by (cases "fastbootSwitchPattern s") auto

lemma fastbootSwitchPattern_empty_query:
  assumes "(0x3F :: jschar) \<notin> set r"
  shows "fastbootSwitchPattern (r @ fastbootSwitchSuffix @ namesQuery) = None"
proof (rule ccontr)
  let ?s = "r @ fastbootSwitchSuffix @ namesQuery"
  assume "fastbootSwitchPattern ?s \<noteq> None"
  then obtain orig q where "fastbootSwitchPattern ?s = Some (orig, q)" by auto
  from fastbootSwitchPattern_sound[OF this] obtain pre after where
    s: "?s = pre @ orig @ fastbootSwitchSuffix @ after" and q: "fastbootQuery after = Some q"
    by blast
  obtain m where m: "namesQuery = 0x3F # m" "(0x3F :: jschar) \<notin> set m" "last m = 0x3D" "m \<noteq> []"
    by (simp add: namesQuery_def js_def)
  have nq: "(0x3F :: jschar) \<notin> set (r @ fastbootSwitchSuffix)"
    using assms by (simp add: fastbootSwitchSuffix_def js_def)
  show False
  proof (cases "after = []")
    case True
    have "pre @ orig @ fastbootSwitchSuffix @ after = (pre @ orig) @ fastbootSwitchSuffix"
      using True by simp
    then have "last (pre @ orig @ fastbootSwitchSuffix @ after) = last fastbootSwitchSuffix"
      using last_appendR[OF last_markers(4), of "pre @ orig"] by simp
    then have "last ?s = 0x68" using s last_markers(3) by simp
    moreover have "last namesQuery = 0x3D" "namesQuery \<noteq> []"
      by (simp_all add: namesQuery_def js_def)
    then have "last ?s = 0x3D" by simp
    ultimately show False by simp
  next
    case False
    with q obtain n where n: "after = namesQuery @ n" "n \<noteq> []"
      by (auto simp add: fastbootQuery_def prefix_def split: if_splits)
    have "(r @ fastbootSwitchSuffix) @ 0x3F # m
          = (pre @ orig @ fastbootSwitchSuffix) @ 0x3F # (m @ n)"
      using s n(1) m(1) by simp
    then have "m = m @ n"
      using append_Cons_eq_iff[OF nq m(2), of "pre @ orig @ fastbootSwitchSuffix" "m @ n"]
      by blast
    with n(2) show False by simp
  qed
qed

lemma sample_resolve_lf:
  "resolve (js ''/'') [dirname (js ''/pkg/index.js''), js ''./thing'' @ [0x0A]]
   = js ''/pkg/thing'' @ [0x0A]"
  by (simp add: path_eval string_eval Let_def)

lemma comma_name_split:
  "decodeFastbootSwitch
      (fastbootSwitch (js ''/'') (js ''./thing'') (js ''/pkg/index.js'') [js ''a,b''])
     = Some \<lparr> fb_names = [js ''a'', js ''b''], fb_hasDefaultExport = False,
               fb_filename = js ''/pkg/thing'' \<rparr>
   \<and> [js ''a'', js ''b''] \<noteq> filter (\<lambda>name. name \<noteq> defaultName) [js ''a,b'']"
proof -
  have "decodeFastbootSwitch (js ''/pkg/thing'' @ fastbootSwitchSuffix
          @ (if [js ''a,b''] = [] then [] else namesQuery @ join_with [comma] [js ''a,b'']))
    = (let parts = (if [js ''a,b''] = [] then []
                    else split_on comma (join_with [comma] [js ''a,b'']))
       in Some \<lparr> fb_names = filter (\<lambda>name. name \<noteq> defaultName) parts,
                 fb_hasDefaultExport = (defaultName \<in> set parts),
                 fb_filename = takeWhileEnd (\<lambda>c. \<not> lineTerminator c) (js ''/pkg/thing'') \<rparr>)"
  proof (rule decodeFastbootSwitch_built[OF _ _ refl])
    show "\<not> sublist fastbootSwitchSuffix (join_with [comma] [js ''a,b''])"
      by (rule not_sublist_no_underscore) (simp add: string_eval)
  qed (simp_all add: string_eval)
  moreover have "split_on comma (js ''a,b'') = [js ''a'', js ''b'']"
    by (simp add: string_eval)
  moreover have "takeWhileEnd (\<lambda>c. \<not> lineTerminator c) (js ''/pkg/thing'') = js ''/pkg/thing''"
    by (simp add: string_eval)
  moreover have "js ''a'' \<noteq> defaultName" "js ''b'' \<noteq> defaultName"
    by (simp_all add: defaultName_def js_def)
  ultimately show ?thesis
    by (simp add: fastbootSwitch_shape sample_resolve)
qed

lemma empty_name_not_decoded:
  "decodeFastbootSwitch
      (fastbootSwitch (js ''/'') (js ''./thing'') (js ''/pkg/index.js'') [[]]) = None"
proof -
  have "fastbootSwitchPattern (js ''/pkg/thing'' @ fastbootSwitchSuffix @ namesQuery) = None"
    by (rule fastbootSwitchPattern_empty_query) (simp add: js_def)
  then show ?thesis
    by (simp add: decodeFastbootSwitch_def fastbootSwitch_shape sample_resolve)
qed

lemma marker_name_misread:
  "decodeFastbootSwitch
      (fastbootSwitch (js ''/'') (js ''./thing'') (js ''/pkg/index.js'')
         [js ''x'' @ fastbootSwitchSuffix])
   = Some \<lparr> fb_names = [], fb_hasDefaultExport = False,
             fb_filename = js ''/pkg/thing'' @ fastbootSwitchSuffix @ namesQuery @ js ''x'' \<rparr>"
proof -
  have "fastbootSwitchPattern
          ((js ''/pkg/thing'' @ fastbootSwitchSuffix @ namesQuery @ js ''x'')
           @ fastbootSwitchSuffix)
        = Some (js ''/pkg/thing'' @ fastbootSwitchSuffix @ namesQuery @ js ''x'', None)"
    by (rule fastbootSwitchPattern_plain)
       (simp_all add: fastbootSwitchSuffix_def namesQuery_def js_def lineTerminator_def)
  then show ?thesis
    by (simp add: decodeFastbootSwitch_def fastbootSwitch_shape sample_resolve)
qed

lemma line_terminator_name_not_decoded:
  "decodeFastbootSwitch
      (fastbootSwitch (js ''/'') (js ''./thing'') (js ''/pkg/index.js'')
         [js ''a'' @ [0x0A] @ js ''b'']) = None"
proof -
  have "fastbootSwitchPattern
          (js ''/pkg/thing'' @ fastbootSwitchSuffix @ namesQuery @ js ''a'' @ [0x0A] @ js ''b'')
        = None"
    by (rule fastbootSwitchPattern_short_tail)
       (simp add: fastbootSwitchSuffix_def namesQuery_def string_eval)
  then show ?thesis
    by (simp add: decodeFastbootSwitch_def fastbootSwitch_shape sample_resolve)
qed

lemma line_terminator_path_not_decoded:
  "decodeFastbootSwitch
      (fastbootSwitch (js ''/'') (js ''./thing'' @ [0x0A]) (js ''/pkg/index.js'') []) = None"
proof -
  have "fastbootSwitchPattern ((js ''/pkg/thing'' @ [0x0A]) @ fastbootSwitchSuffix) = None"
    by (rule fastbootSwitchPattern_short_tail)
       (simp add: fastbootSwitchSuffix_def string_eval)
  then show ?thesis
    by (simp add: decodeFastbootSwitch_def fastbootSwitch_shape sample_resolve_lf)
qed

text \<open>
  C2, as the claim words it, fails: the names are joined by commas without escaping, and
  the set of the single name \<open>a,b\<close> is decoded as the two names \<open>a\<close> and \<open>b\<close>. The
  set of the empty name alone gives a name that the pattern does not match; a name that
  ends in the suffix \<open>/embroider_fastboot_switch\<close> is taken for the end of the path, and
  no name is decoded; and a line terminator in a name, or at the end of the resolved
  path, gives a name that the pattern does not match.
\<close>

theorem fastboot_roundtrip_counterexample:
  "decodeFastbootSwitch
      (fastbootSwitch (js ''/'') (js ''./thing'') (js ''/pkg/index.js'') [js ''a,b''])
     = Some \<lparr> fb_names = [js ''a'', js ''b''], fb_hasDefaultExport = False,
               fb_filename = js ''/pkg/thing'' \<rparr>
   \<and> [js ''a'', js ''b''] \<noteq> filter (\<lambda>name. name \<noteq> defaultName) [js ''a,b'']
   \<and> decodeFastbootSwitch
       (fastbootSwitch (js ''/'') (js ''./thing'') (js ''/pkg/index.js'') [[]]) = None
   \<and> decodeFastbootSwitch
       (fastbootSwitch (js ''/'') (js ''./thing'') (js ''/pkg/index.js'')
          [js ''x'' @ fastbootSwitchSuffix])
     = Some \<lparr> fb_names = [], fb_hasDefaultExport = False,
               fb_filename = js ''/pkg/thing'' @ fastbootSwitchSuffix @ namesQuery @ js ''x'' \<rparr>
   \<and> decodeFastbootSwitch
       (fastbootSwitch (js ''/'') (js ''./thing'') (js ''/pkg/index.js'')
          [js ''a'' @ [0x0A] @ js ''b'']) = None
   \<and> decodeFastbootSwitch
       (fastbootSwitch (js ''/'') (js ''./thing'' @ [0x0A]) (js ''/pkg/index.js'') []) = None"
  using comma_name_split empty_name_not_decoded marker_name_misread
    line_terminator_name_not_decoded line_terminator_path_not_decoded
  by (intro conjI) simp_all

section \<open>The round trip of the percent-encoding\<close>

lemma unat_of_nat16: "n < 65536 \<Longrightarrow> unat (of_nat n :: jschar) = n"
  by (simp add: unat_of_nat)

lemma unat_hexDigit:
  assumes "d < 16"
  shows "unat (hexDigit d) = (if d < 10 then 48 + d else 55 + d)"
proof -
  have "48 + d < 65536" "55 + d < 65536" using assms by simp_all
  then have "unat (of_nat (48 + d) :: jschar) = 48 + d" "unat (of_nat (55 + d) :: jschar) = 55 + d"
    by (simp_all only: unat_of_nat16)
  then show ?thesis
    unfolding hexDigit_def by (cases "d < 10") (simp_all only: if_True if_False)
qed

lemma hexValue_hexDigit: "d < 16 \<Longrightarrow> hexValue (hexDigit d) = Some d"
  by (auto simp add: hexValue_def unat_hexDigit Let_def)

lemma uriTokens_hexOctet:
  assumes "b < 256"
  shows "uriTokens (hexOctet b @ rest) = map_option ((#) (Octet b)) (uriTokens rest)"
proof -
  have "b div 16 < 16" "b mod 16 < 16" using assms by simp_all
  then have "hexValue (hexDigit (b div 16)) = Some (b div 16)"
    "hexValue (hexDigit (b mod 16)) = Some (b mod 16)"
    by (simp_all add: hexValue_hexDigit)
  then show ?thesis by (simp add: hexOctet_def)
qed

lemma uriTokens_escaped:
  "\<forall>b\<in>set bs. b < 256 \<Longrightarrow>
   uriTokens (concat (map hexOctet bs) @ rest) = map_option ((@) (map Octet bs)) (uriTokens rest)"
proof (induction bs)
  case Nil
  then show ?case by (simp add: option.map_ident)
next
  case (Cons b bs)
  then show ?case
    by (cases "uriTokens rest") (simp_all add: uriTokens_hexOctet)
qed

lemma utf8_octets: "cp < 0x110000 \<Longrightarrow> \<forall>b\<in>set (utf8 cp). b < 256"
  by (auto simp add: utf8_def)

lemma decodeTokens_utf8_1:
  assumes "cp < 0x80"
  shows "decodeTokens (map Octet (utf8 cp) @ ts) = map_option ((@) (utf16 cp)) (decodeTokens ts)"
  using assms by (cases "decodeTokens ts") (simp_all add: utf8_def utf16_def)

lemma split_three:
  "cp div 4096 * 4096 + cp div 64 mod 64 * 64 + cp mod 64 = (cp :: nat)"
proof -
  have "cp mod (64 * 64) = 64 * (cp div 64 mod 64) + cp mod 64"
    by (rule mod_mult2_eq)
  then have "cp mod 4096 = cp div 64 mod 64 * 64 + cp mod 64" by simp
  moreover have "cp div 4096 * 4096 + cp mod 4096 = cp" by simp
  ultimately show ?thesis by linarith
qed

lemma split_four:
  "cp div 262144 * 262144 + cp div 4096 mod 64 * 4096 + cp div 64 mod 64 * 64 + cp mod 64
   = (cp :: nat)"
proof -
  have "cp div 4096 = cp div 4096 div 64 * 64 + cp div 4096 mod 64" by simp
  moreover have "cp div 4096 div 64 = cp div 262144"
    by (simp add: div_mult2_eq[symmetric])
  ultimately have "cp div 4096 * 4096
      = cp div 262144 * 262144 + cp div 4096 mod 64 * 4096"
    by linarith
  with split_three[of cp] show ?thesis by linarith
qed

lemma decodeTokens_two:
  assumes "0xC0 \<le> b" "b < 0xE0" "continuation b1" "0x80 \<le> (b - 0xC0) * 64 + (b1 - 0x80)"
  shows "decodeTokens (Octet b # Octet b1 # ts)
         = map_option ((@) (utf16 ((b - 0xC0) * 64 + (b1 - 0x80)))) (decodeTokens ts)"
  using assms by (simp add: Let_def)

lemma decodeTokens_three:
  assumes "0xE0 \<le> b" "b < 0xF0" "continuation b1" "continuation b2"
    "0x800 \<le> (b - 0xE0) * 4096 + (b1 - 0x80) * 64 + (b2 - 0x80)"
    "\<not> (0xD800 \<le> (b - 0xE0) * 4096 + (b1 - 0x80) * 64 + (b2 - 0x80)
        \<and> (b - 0xE0) * 4096 + (b1 - 0x80) * 64 + (b2 - 0x80) \<le> 0xDFFF)"
  shows "decodeTokens (Octet b # Octet b1 # Octet b2 # ts)
         = map_option ((@) (utf16 ((b - 0xE0) * 4096 + (b1 - 0x80) * 64 + (b2 - 0x80))))
             (decodeTokens ts)"
  using assms by (simp add: Let_def)

lemma decodeTokens_four:
  assumes "0xF0 \<le> b" "b < 0xF8" "continuation b1" "continuation b2" "continuation b3"
    "0x10000 \<le> (b - 0xF0) * 262144 + (b1 - 0x80) * 4096 + (b2 - 0x80) * 64 + (b3 - 0x80)"
    "(b - 0xF0) * 262144 + (b1 - 0x80) * 4096 + (b2 - 0x80) * 64 + (b3 - 0x80) \<le> 0x10FFFF"
  shows "decodeTokens (Octet b # Octet b1 # Octet b2 # Octet b3 # ts)
         = map_option
             ((@) (utf16 ((b - 0xF0) * 262144 + (b1 - 0x80) * 4096 + (b2 - 0x80) * 64
                          + (b3 - 0x80))))
             (decodeTokens ts)"
  using assms by (simp add: Let_def)

lemma decodeTokens_utf8_2:
  assumes "0x80 \<le> cp" "cp < 0x800"
  shows "decodeTokens (map Octet (utf8 cp) @ ts) = map_option ((@) (utf16 cp)) (decodeTokens ts)"
proof -
  let ?b = "0xC0 + cp div 64" and ?b1 = "0x80 + cp mod 64"
  have u: "utf8 cp = [?b, ?b1]" using assms by (simp add: utf8_def)
  have v: "(?b - 0xC0) * 64 + (?b1 - 0x80) = cp" by simp
  have "cp div 64 < 32" using assms by arith
  then have r: "0xC0 \<le> ?b" "?b < 0xE0" "continuation ?b1" by (simp_all add: continuation_def)
  have "decodeTokens (Octet ?b # Octet ?b1 # ts)
        = map_option ((@) (utf16 ((?b - 0xC0) * 64 + (?b1 - 0x80)))) (decodeTokens ts)"
    using r assms(1) by (intro decodeTokens_two) (simp_all only: v)
  then show ?thesis by (simp only: u v list.map append_Cons append_Nil)
qed

lemma decodeTokens_utf8_3:
  assumes "0x800 \<le> cp" "cp < 0x10000" "\<not> (0xD800 \<le> cp \<and> cp \<le> 0xDFFF)"
  shows "decodeTokens (map Octet (utf8 cp) @ ts) = map_option ((@) (utf16 cp)) (decodeTokens ts)"
proof -
  let ?b = "0xE0 + cp div 4096" and ?b1 = "0x80 + cp div 64 mod 64" and ?b2 = "0x80 + cp mod 64"
  have u: "utf8 cp = [?b, ?b1, ?b2]" using assms by (simp add: utf8_def)
  have "cp div 4096 * 4096 + cp div 64 mod 64 * 64 + cp mod 64 = cp"
    by (rule split_three)
  then have v: "(?b - 0xE0) * 4096 + (?b1 - 0x80) * 64 + (?b2 - 0x80) = cp" by simp
  have "cp div 4096 < 16" using assms by arith
  then have r: "0xE0 \<le> ?b" "?b < 0xF0" "continuation ?b1" "continuation ?b2"
    by (simp_all add: continuation_def)
  have "decodeTokens (Octet ?b # Octet ?b1 # Octet ?b2 # ts)
        = map_option ((@) (utf16 ((?b - 0xE0) * 4096 + (?b1 - 0x80) * 64 + (?b2 - 0x80))))
            (decodeTokens ts)"
    using r assms by (intro decodeTokens_three) (simp_all only: v not_False_eq_True)
  then show ?thesis by (simp only: u v list.map append_Cons append_Nil)
qed

lemma decodeTokens_utf8_4:
  assumes "0x10000 \<le> cp" "cp < 0x110000"
  shows "decodeTokens (map Octet (utf8 cp) @ ts) = map_option ((@) (utf16 cp)) (decodeTokens ts)"
proof -
  let ?b = "0xF0 + cp div 262144" and ?b1 = "0x80 + cp div 4096 mod 64"
    and ?b2 = "0x80 + cp div 64 mod 64" and ?b3 = "0x80 + cp mod 64"
  have u: "utf8 cp = [?b, ?b1, ?b2, ?b3]" using assms by (simp add: utf8_def)
  have "cp div 262144 * 262144 + cp div 4096 mod 64 * 4096 + cp div 64 mod 64 * 64
           + cp mod 64 = cp"
    by (rule split_four)
  then have v: "(?b - 0xF0) * 262144 + (?b1 - 0x80) * 4096 + (?b2 - 0x80) * 64 + (?b3 - 0x80) = cp"
    by simp
  have "cp div 262144 < 5" using assms by arith
  then have r: "0xF0 \<le> ?b" "?b < 0xF8" "continuation ?b1" "continuation ?b2" "continuation ?b3"
    by (simp_all add: continuation_def)
  have w: "cp \<le> 0x10FFFF" using assms by simp
  have "decodeTokens (Octet ?b # Octet ?b1 # Octet ?b2 # Octet ?b3 # ts)
        = map_option
            ((@) (utf16 ((?b - 0xF0) * 262144 + (?b1 - 0x80) * 4096 + (?b2 - 0x80) * 64
                         + (?b3 - 0x80))))
            (decodeTokens ts)"
    using r assms(1) w by (intro decodeTokens_four) (simp_all only: v)
  then show ?thesis by (simp only: u v list.map append_Cons append_Nil)
qed

lemma decodeTokens_utf8:
  assumes "cp < 0x110000" "\<not> (0xD800 \<le> cp \<and> cp \<le> 0xDFFF)"
  shows "decodeTokens (map Octet (utf8 cp) @ ts) = map_option ((@) (utf16 cp)) (decodeTokens ts)"
proof -
  consider "cp < 0x80" | "0x80 \<le> cp \<and> cp < 0x800" | "0x800 \<le> cp \<and> cp < 0x10000"
    | "0x10000 \<le> cp"
    by linarith
  then show ?thesis
    using assms
    by cases (simp_all add: decodeTokens_utf8_1 decodeTokens_utf8_2 decodeTokens_utf8_3
        decodeTokens_utf8_4)
qed

lemma encode_Cons_unreserved:
  assumes "uriUnreserved c" "encodeURIComponent (c # cs) = Inr e"
  obtains e' where "encodeURIComponent cs = Inr e'" "e = c # e'"
  using assms by (cases "encodeURIComponent cs") auto

lemma encode_Cons_pair:
  assumes "\<not> uriUnreserved c" "highSurrogate c" "encodeURIComponent (c # cs) = Inr e"
  obtains d ds e' where "cs = d # ds" "lowSurrogate d" "\<not> lowSurrogate c"
    "encodeURIComponent ds = Inr e'"
    "e = escapeCodePoint (0x10000 + (unat c - 0xD800) * 0x400 + (unat d - 0xDC00)) @ e'"
proof -
  from assms have nl: "\<not> lowSurrogate c" by (auto split: if_splits)
  with assms obtain d ds where cs: "cs = d # ds" by (cases cs) auto
  with assms nl have ld: "lowSurrogate d" by (auto split: if_splits)
  with assms nl cs obtain e' where "encodeURIComponent ds = Inr e'"
    "e = escapeCodePoint (0x10000 + (unat c - 0xD800) * 0x400 + (unat d - 0xDC00)) @ e'"
    by (cases "encodeURIComponent ds") auto
  with cs ld nl that show ?thesis by blast
qed

lemma encode_Cons_single:
  assumes "\<not> uriUnreserved c" "\<not> highSurrogate c" "encodeURIComponent (c # cs) = Inr e"
  obtains e' where "\<not> lowSurrogate c" "encodeURIComponent cs = Inr e'"
    "e = escapeCodePoint (unat c) @ e'"
proof -
  from assms have nl: "\<not> lowSurrogate c" by (auto split: if_splits)
  with assms obtain e' where "encodeURIComponent cs = Inr e'"
    "e = escapeCodePoint (unat c) @ e'"
    by (cases "encodeURIComponent cs") auto
  with nl that show ?thesis by blast
qed

lemma unreserved_not_percent: "uriUnreserved c \<Longrightarrow> c \<noteq> percent"
  by (auto simp add: uriUnreserved_def percent_def Let_def)

lemma escape_tokens:
  assumes "cp < 0x110000" "\<not> (0xD800 \<le> cp \<and> cp \<le> 0xDFFF)"
    "uriTokens e' = Some ts'" "decodeTokens ts' = Some s'"
  shows "\<exists>ts. uriTokens (escapeCodePoint cp @ e') = Some ts
              \<and> decodeTokens ts = Some (utf16 cp @ s')"
proof -
  have "uriTokens (escapeCodePoint cp @ e') = Some (map Octet (utf8 cp) @ ts')"
    using utf8_octets[OF assms(1)] assms(3)
    by (simp add: escapeCodePoint_def uriTokens_escaped)
  moreover have "decodeTokens (map Octet (utf8 cp) @ ts') = Some (utf16 cp @ s')"
    using assms by (simp add: decodeTokens_utf8)
  ultimately show ?thesis by blast
qed

lemma pair_code_point:
  assumes "highSurrogate c" "lowSurrogate d"
  defines "cp \<equiv> 0x10000 + (unat c - 0xD800) * 0x400 + (unat d - 0xDC00)"
  shows "cp < 0x110000" "0x10000 \<le> cp" "utf16 cp = [c, d]"
proof -
  have c: "0xD800 \<le> unat c" "unat c \<le> 0xDBFF" and d: "0xDC00 \<le> unat d" "unat d \<le> 0xDFFF"
    using assms by (simp_all add: highSurrogate_def lowSurrogate_def)
  show lt: "cp < 0x110000" and ge: "0x10000 \<le> cp"
    using c d by (simp_all add: cp_def)
  have "cp - 0x10000 = (unat c - 0xD800) * 0x400 + (unat d - 0xDC00)" by (simp add: cp_def)
  moreover have "unat d - 0xDC00 < 0x400" using d by simp
  ultimately have "(cp - 0x10000) div 0x400 = unat c - 0xD800"
    "(cp - 0x10000) mod 0x400 = unat d - 0xDC00"
    by simp_all
  then have "0xD800 + (cp - 0x10000) div 0x400 = unat c"
    "0xDC00 + (cp - 0x10000) mod 0x400 = unat d"
    using c d by simp_all
  then have "utf16 cp = [of_nat (unat c), of_nat (unat d)]"
    using ge by (simp only: utf16_def) simp
  then show "utf16 cp = [c, d]" by simp
qed

lemma single_code_point:
  assumes "\<not> highSurrogate c" "\<not> lowSurrogate c"
  shows "unat c < 0x110000" "\<not> (0xD800 \<le> unat c \<and> unat c \<le> 0xDFFF)" "utf16 (unat c) = [c]"
proof -
  have lt: "unat c < 65536" using unsigned_less[of c, where 'a = nat] by simp
  then show "unat c < 0x110000" by simp
  show "\<not> (0xD800 \<le> unat c \<and> unat c \<le> 0xDFFF)"
    using assms by (auto simp add: highSurrogate_def lowSurrogate_def)
  show "utf16 (unat c) = [c]" using lt by (simp add: utf16_def)
qed

lemma encode_tokens:
  "encodeURIComponent s = Inr e \<Longrightarrow> \<exists>ts. uriTokens e = Some ts \<and> decodeTokens ts = Some s"
proof (induction s arbitrary: e rule: encodeURIComponent.induct)
  case 1
  then show ?case by simp
next
  case (2 c cs)
  show ?case
  proof (cases "uriUnreserved c")
    case True
    from encode_Cons_unreserved[OF True "2.prems"] obtain e' where
      e: "encodeURIComponent cs = Inr e'" "e = c # e'" by blast
    from "2.IH"(1)[OF True e(1)] obtain ts' where
      "uriTokens e' = Some ts'" "decodeTokens ts' = Some cs" by blast
    then have "uriTokens e = Some (Literal c # ts') \<and> decodeTokens (Literal c # ts') = Some (c # cs)"
      using e(2) unreserved_not_percent[OF True] by simp
    then show ?thesis by blast
  next
    case False
    show ?thesis
    proof (cases "highSurrogate c")
      case True
      from encode_Cons_pair[OF False True "2.prems"] obtain d ds e' where
        p: "cs = d # ds" "lowSurrogate d" "\<not> lowSurrogate c" "encodeURIComponent ds = Inr e'"
        "e = escapeCodePoint (0x10000 + (unat c - 0xD800) * 0x400 + (unat d - 0xDC00)) @ e'"
        by blast
      from "2.IH"(2)[OF False p(3) True p(1) p(2) p(4)] obtain ts' where
        t: "uriTokens e' = Some ts'" "decodeTokens ts' = Some ds" by blast
      note cp = pair_code_point[OF True p(2)]
      from escape_tokens[OF cp(1) _ t] cp(2) p(5) obtain ts where
        "uriTokens e = Some ts"
        "decodeTokens ts
         = Some (utf16 (0x10000 + (unat c - 0xD800) * 0x400 + (unat d - 0xDC00)) @ ds)"
        by auto
      then show ?thesis using cp(3) p(1) by auto
    next
      case nh: False
      from encode_Cons_single[OF False nh "2.prems"] obtain e' where
        p: "\<not> lowSurrogate c" "encodeURIComponent cs = Inr e'" "e = escapeCodePoint (unat c) @ e'"
        by blast
      from "2.IH"(3)[OF False p(1) nh p(2)] obtain ts' where
        t: "uriTokens e' = Some ts'" "decodeTokens ts' = Some cs" by blast
      note cp = single_code_point[OF nh p(1)]
      from escape_tokens[OF cp(1) cp(2) t] p(3) obtain ts where
        "uriTokens e = Some ts" "decodeTokens ts = Some (utf16 (unat c) @ cs)"
        by auto
      then show ?thesis using cp(3) by auto
    qed
  qed
qed

lemma decode_encode:
  "encodeURIComponent s = Inr e \<Longrightarrow> decodeURIComponent e = Inr s"
  using encode_tokens[of s e] by (auto simp add: decodeURIComponent_def)

lemma encode_induct [consumes 1, case_names Nil Unreserved Pair Single]:
  assumes "encodeURIComponent s = Inr e"
    and "P [] []"
    and "\<And>c cs e'. uriUnreserved c \<Longrightarrow> encodeURIComponent cs = Inr e' \<Longrightarrow> P cs e'
           \<Longrightarrow> P (c # cs) (c # e')"
    and "\<And>c d ds e'. highSurrogate c \<Longrightarrow> lowSurrogate d \<Longrightarrow> encodeURIComponent ds = Inr e'
           \<Longrightarrow> P ds e'
           \<Longrightarrow> P (c # d # ds)
                 (escapeCodePoint (0x10000 + (unat c - 0xD800) * 0x400 + (unat d - 0xDC00)) @ e')"
    and "\<And>c cs e'. \<not> uriUnreserved c \<Longrightarrow> \<not> highSurrogate c \<Longrightarrow> \<not> lowSurrogate c
           \<Longrightarrow> encodeURIComponent cs = Inr e' \<Longrightarrow> P cs e'
           \<Longrightarrow> P (c # cs) (escapeCodePoint (unat c) @ e')"
  shows "P s e"
  using assms(1)
proof (induction s arbitrary: e rule: encodeURIComponent.induct)
  case 1
  then show ?case using assms(2) by simp
next
  case (2 c cs)
  show ?case
  proof (cases "uriUnreserved c")
    case True
    from encode_Cons_unreserved[OF True "2.prems"] obtain e' where
      e: "encodeURIComponent cs = Inr e'" "e = c # e'" by blast
    from assms(3)[OF True e(1) "2.IH"(1)[OF True e(1)]] e(2) show ?thesis by simp
  next
    case False
    show ?thesis
    proof (cases "highSurrogate c")
      case True
      from encode_Cons_pair[OF False True "2.prems"] obtain d ds e' where
        p: "cs = d # ds" "lowSurrogate d" "\<not> lowSurrogate c" "encodeURIComponent ds = Inr e'"
        "e = escapeCodePoint (0x10000 + (unat c - 0xD800) * 0x400 + (unat d - 0xDC00)) @ e'"
        by blast
      from assms(4)[OF True p(2) p(4) "2.IH"(2)[OF False p(3) True p(1) p(2) p(4)]] p(1) p(5)
      show ?thesis by simp
    next
      case nh: False
      from encode_Cons_single[OF False nh "2.prems"] obtain e' where
        p: "\<not> lowSurrogate c" "encodeURIComponent cs = Inr e'" "e = escapeCodePoint (unat c) @ e'"
        by blast
      from assms(5)[OF False nh p(1) p(2) "2.IH"(3)[OF False p(1) nh p(2)]] p(3)
      show ?thesis by simp
    qed
  qed
qed

lemma hexDigit_unreserved: "d < 16 \<Longrightarrow> uriUnreserved (hexDigit d)"
  by (auto simp add: uriUnreserved_def unat_hexDigit Let_def)

lemma escapeCodePoint_chars:
  assumes "cp < 0x110000"
  shows "\<forall>x\<in>set (escapeCodePoint cp). uriUnreserved x \<or> x = percent"
proof -
  have "\<And>b. b < 256 \<Longrightarrow> \<forall>x\<in>set (hexOctet b). uriUnreserved x \<or> x = percent"
  proof -
    fix b :: nat
    assume "b < 256"
    then have "b div 16 < 16" "b mod 16 < 16" by simp_all
    then show "\<forall>x\<in>set (hexOctet b). uriUnreserved x \<or> x = percent"
      by (simp add: hexOctet_def hexDigit_unreserved)
  qed
  with utf8_octets[OF assms] show ?thesis by (auto simp add: escapeCodePoint_def)
qed

lemma escapeCodePoint_length: "3 \<le> length (escapeCodePoint cp)"
  by (simp add: escapeCodePoint_def utf8_def hexOctet_def)

lemma encode_chars:
  "encodeURIComponent s = Inr e \<Longrightarrow> \<forall>x\<in>set e. uriUnreserved x \<or> x = percent"
proof (induction rule: encode_induct)
  case (Pair c d ds e')
  then show ?case
    using escapeCodePoint_chars[OF pair_code_point(1)[OF Pair(1,2)]] by auto
next
  case (Single c cs e')
  then show ?case
    using escapeCodePoint_chars[OF single_code_point(1)[OF Single(2,3)]] by auto
qed simp_all

lemma encode_no_slash:
  assumes "encodeURIComponent s = Inr e"
  shows "slash \<notin> set e"
proof
  assume "slash \<in> set e"
  with encode_chars[OF assms] have "uriUnreserved slash \<or> slash = percent" by blast
  then show False by (simp add: uriUnreserved_def slash_def percent_def)
qed

lemma encode_length: "encodeURIComponent s = Inr e \<Longrightarrow> length s \<le> length e"
proof (induction rule: encode_induct)
  case (Pair c d ds e')
  then show ?case
    using escapeCodePoint_length[of "0x10000 + (unat c - 0xD800) * 0x400 + (unat d - 0xDC00)"]
    by simp
next
  case (Single c cs e')
  then show ?case using escapeCodePoint_length[of "unat c"] by simp
qed simp_all

lemma encode_Nil_iff: "encodeURIComponent s = Inr [] \<longleftrightarrow> s = []"
  using encode_length[of s "[]"] by auto

text \<open>The paired-component pattern on a name of the shape that the encoder builds.\<close>

lemma pairComponentPattern_built:
  assumes "slash \<notin> set e" "\<not> list_ex lineTerminator h"
  shows "pairComponentPattern (h @ [slash] @ e @ pairComponentMarker) = Some (h, e)"
proof -
  let ?f = "h @ [slash] @ e @ pairComponentMarker"
  have s: "suffix pairComponentMarker ?f"
    by (metis append_assoc suffixI)
  have body: "take (length ?f - length pairComponentMarker) ?f = h @ [slash] @ e"
    by simp
  have "takeWhile (\<lambda>c. c \<noteq> slash) (rev e @ slash # rev h) = rev e"
    using assms(1) by (subst takeWhile_append2) auto
  then have t: "takeWhileEnd (\<lambda>c. c \<noteq> slash) (h @ [slash] @ e) = e"
    by (simp add: takeWhileEnd_def)
  have front: "take (length (h @ [slash] @ e) - length e) (h @ [slash] @ e) = h @ [slash]"
    by simp
  show ?thesis
    unfolding pairComponentPattern_def Let_def body t front
    using s assms(2) by simp
qed

lemma dirname_segment:
  assumes "slash \<notin> set e" "e \<noteq> []" "slash \<notin> set m" "m \<noteq> []"
  shows "dirname (h @ [slash] @ e @ slash # m) = h @ [slash] @ e"
proof -
  let ?f = "h @ [slash] @ e @ slash # m"
  have "last m \<in> set m" using assms(4) by simp
  then have lm: "last m \<noteq> slash" using assms(3) by auto
  have d1: "\<And>t. dropWhile (\<lambda>c. c = slash) (rev m @ t) = rev m @ t"
    using assms(4) lm by (cases m rule: rev_cases) auto
  have d2: "\<And>t. dropWhile (\<lambda>c. c \<noteq> slash) (rev m @ slash # t) = slash # t"
    using assms(3) by (subst dropWhile_append2) auto
  show ?thesis
  proof (cases h)
    case Nil
    have "tl ?f = e @ slash # m" using Nil by simp
    then have "rev (tl ?f) = rev m @ slash # rev e" by simp
    then have sc: "dropWhile (\<lambda>c. c \<noteq> slash) (dropWhile (\<lambda>c. c = slash) (rev (tl ?f)))
        = slash # rev e"
      by (simp only: d1 d2)
    have "take (length (slash # rev e)) ?f = h @ [slash] @ e"
      using Nil by simp
    moreover have "length (slash # rev e) \<noteq> 1" using assms(2) by simp
    ultimately show ?thesis
      unfolding dirname_def Let_def sc by simp
  next
    case (Cons a t)
    have "tl ?f = t @ slash # e @ slash # m" using Cons by simp
    then have "rev (tl ?f) = rev m @ slash # (rev e @ slash # rev t)" by simp
    then have sc: "dropWhile (\<lambda>c. c \<noteq> slash) (dropWhile (\<lambda>c. c = slash) (rev (tl ?f)))
        = slash # (rev e @ slash # rev t)"
      by (simp only: d1 d2)
    have "take (length (slash # (rev e @ slash # rev t))) ?f = h @ [slash] @ e"
      using Cons by simp
    moreover have "length (slash # (rev e @ slash # rev t)) \<noteq> 1" by simp
    ultimately show ?thesis
      unfolding dirname_def Let_def sc by simp
  qed
qed

lemma dirname_built:
  assumes "slash \<notin> set e" "e \<noteq> []"
  shows "dirname (h @ [slash] @ e @ pairComponentMarker) = h @ [slash] @ e"
proof -
  have "pairComponentMarker = slash # tl pairComponentMarker"
    "slash \<notin> set (tl pairComponentMarker)" "tl pairComponentMarker \<noteq> []"
    by (simp_all add: pairComponentMarker_def js_def slash_def)
  with dirname_segment[OF assms, of "tl pairComponentMarker" h] show ?thesis by simp
qed

section \<open>The round trip of the paired component\<close>

lemma split_on_nonempty: "split_on c s \<noteq> []"
  by (induction s) (auto split: list.splits)

lemma split_on_append:
  "split_on c (a @ c # b) = split_on c a @ split_on c b"
proof (induction a)
  case Nil
  then show ?case by simp
next
  case (Cons x a)
  obtain y ys where "split_on c a = y # ys"
    using split_on_nonempty[of c a] by (cases "split_on c a") auto
  with Cons show ?case by simp
qed

lemma normalizeSegments_append:
  "normalizeSegments allow (a @ slash # b)
   = foldl (normalizeStep allow) (normalizeSegments allow a) (split_on slash b)"
  by (simp add: normalizeSegments_def split_on_append)

lemma split_on_dotDot: "split_on slash dotDotSegment = [dotDotSegment]"
  by (simp add: dotDotSegment_def js_def slash_def)

lemma normalizeStep_push:
  "seg \<noteq> [] \<Longrightarrow> seg \<noteq> dotSegment \<Longrightarrow> seg \<noteq> dotDotSegment
   \<Longrightarrow> normalizeStep allow stack seg = seg # stack"
  by (simp add: normalizeStep_def)

lemma normalizeStep_pop:
  "seg \<noteq> dotDotSegment \<Longrightarrow> normalizeStep allow (seg # stack) dotDotSegment = stack"
  by (simp add: normalizeStep_def dotDotSegment_def dotSegment_def js_def)

text \<open>
  Below a directory \<open>x/seg\<close>, a path that starts with \<open>../\<close> is normalised as below
  \<open>x\<close>, whatever the segment \<open>seg\<close> is.
\<close>

lemma normalizeSegments_up:
  assumes "seg \<noteq> []" "seg \<noteq> dotSegment" "seg \<noteq> dotDotSegment" "slash \<notin> set seg"
  shows "normalizeSegments allow (x @ slash # seg @ slash # dotDotSegment @ slash # rest)
         = foldl (normalizeStep allow) (normalizeSegments allow x) (split_on slash rest)"
proof -
  have "split_on slash (seg @ slash # dotDotSegment @ slash # rest)
        = [seg] @ [dotDotSegment] @ split_on slash rest"
    using assms(4) by (simp add: split_on_append split_on_no_separator split_on_dotDot)
  then show ?thesis
    using assms(1-3)
    by (simp add: normalizeSegments_append normalizeStep_push normalizeStep_pop)
qed

lemma normalizeSegments_up_j:
  "normalizeSegments allow (x @ js ''/j/'' @ slash # dotDotSegment @ slash # rest)
   = foldl (normalizeStep allow) (normalizeSegments allow x) (split_on slash rest)"
proof -
  have j: "js ''/j/'' = slash # js ''j'' @ [slash]"
    by (simp add: js_def slash_def)
  have "split_on slash (js ''j'' @ slash # slash # dotDotSegment @ slash # rest)
        = [js ''j''] @ [[]] @ [dotDotSegment] @ split_on slash rest"
    using split_on_append[of slash "js ''j''" "slash # dotDotSegment @ slash # rest"]
      split_on_append[of slash "[]" "dotDotSegment @ slash # rest"]
      split_on_append[of slash dotDotSegment rest]
    by (simp add: split_on_dotDot) (simp add: js_def slash_def)
  moreover have "normalizeStep allow (normalizeSegments allow x) (js ''j'')
      = js ''j'' # normalizeSegments allow x"
    by (rule normalizeStep_push) (simp_all add: js_def dotSegment_def dotDotSegment_def)
  moreover have "normalizeStep allow (js ''j'' # normalizeSegments allow x) [] 
      = js ''j'' # normalizeSegments allow x"
    by (simp add: normalizeStep_def)
  moreover have "normalizeStep allow (js ''j'' # normalizeSegments allow x) dotDotSegment
      = normalizeSegments allow x"
    by (rule normalizeStep_pop) (simp add: js_def dotDotSegment_def)
  ultimately show ?thesis
    by (simp add: j normalizeSegments_append)
qed

lemma resolve_absolute:
  assumes "r \<noteq> []" "hd r = slash"
  shows "resolve cwd [d, r] = slash # normalizeString (r @ [slash]) False"
  using assms by (simp add: resolve_def)

lemma resolve_relative:
  assumes "r \<noteq> []" "hd r \<noteq> slash" "d \<noteq> []"
  shows "resolve cwd [d, r]
    = (case resolveLoop [cwd] (d @ slash # r @ [slash]) (hd d = slash) of
        (resolvedPath, resolvedAbsolute) \<Rightarrow>
          (let p = normalizeString resolvedPath (\<not> resolvedAbsolute)
           in if resolvedAbsolute then slash # p
              else if p \<noteq> [] then p else dotSegment))"
  using assms by (simp add: resolve_def)

lemma resolve_same_depth:
  assumes "e \<noteq> []" "e \<noteq> dotSegment" "e \<noteq> dotDotSegment" "slash \<notin> set e"
    and "prefix (js ''../'') r"
  shows "resolve cwd [h @ [slash] @ e, r] = resolve cwd [h @ js ''/j/'', r]"
proof -
  from assms(5) obtain rest where r: "r = dotDotSegment @ slash # rest"
    by (auto simp add: prefix_def dotDotSegment_def js_def slash_def)
  have r1: "r \<noteq> []" "hd r \<noteq> slash"
    by (simp_all add: r dotDotSegment_def js_def slash_def)
  have hd: "hd (h @ [slash] @ e) = hd (h @ js ''/j/'')"
    by (cases h) (simp_all add: js_def slash_def)
  have n: "\<And>allow x. normalizeString (x @ (h @ [slash] @ e) @ slash # r @ [slash]) allow
      = normalizeString (x @ (h @ js ''/j/'') @ slash # r @ [slash]) allow"
  proof -
    fix allow x
    have "normalizeSegments allow ((x @ h) @ slash # e @ slash # dotDotSegment @ slash # (rest @ [slash]))
      = normalizeSegments allow ((x @ h) @ js ''/j/'' @ slash # dotDotSegment @ slash # (rest @ [slash]))"
      by (simp only: normalizeSegments_up[OF assms(1-4)] normalizeSegments_up_j)
    then show "normalizeString (x @ (h @ [slash] @ e) @ slash # r @ [slash]) allow
      = normalizeString (x @ (h @ js ''/j/'') @ slash # r @ [slash]) allow"
      by (simp add: normalizeString_def r)
  qed
  have l: "\<And>d. d \<noteq> [] \<Longrightarrow> resolveLoop [cwd] (d @ slash # r @ [slash]) (hd d = slash)
      = (if hd d = slash \<or> cwd = [] then (d @ slash # r @ [slash], hd d = slash)
         else (cwd @ [slash] @ d @ slash # r @ [slash], hd cwd = slash))"
    by simp
  have d1: "h @ [slash] @ e \<noteq> []" and d2: "h @ js ''/j/'' \<noteq> []"
    by (simp_all add: js_def)
  show ?thesis
    unfolding resolve_relative[OF r1 d1] resolve_relative[OF r1 d2] l[OF d1] l[OF d2] hd
    using n[of "[]"] n[of "cwd @ [slash]"]
    by (simp add: Let_def)
qed

lemma virtualPairComponent_shape:
  assumes "virtualPairComponent explicitRelative hbsModule jsModule = Inr filename"
  defines "rel \<equiv> (case jsModule of None \<Rightarrow> []
      | Some j \<Rightarrow> if j \<noteq> [] then explicitRelative (hbsModule @ js ''/j/'') j else [])"
  obtains encoded where "encodeURIComponent rel = Inr encoded"
    "filename = hbsModule @ [slash] @ encoded @ pairComponentMarker"
  using assms
  by (cases "encodeURIComponent rel") (auto simp add: virtualPairComponent_def Let_def)

text \<open>
  C1, as the code has it. Let the hbs module path hold no line terminator, and let
  \<open>virtualPairComponent\<close> return a filename (it throws \<open>URIError\<close> when the relative
  path holds an unpaired surrogate). Then decoding that filename succeeds;
  \<open>relativeJSModule\<close> is exactly the path \<open>explicitRelative (hbsModule + '/j/') jsModule\<close>
  that the encoder computed, and it is \<open>null\<close> exactly when \<open>jsModule\<close> is \<open>null\<close> or the
  empty string, or that path is empty. When that path starts with \<open>../\<close> or is absolute,
  resolving it against the directory of the virtual filename gives the same file as
  resolving it against \<open>hbsModule + '/j/'\<close>: the segment \<open>j\<close> stands for the encoded
  segment, so that the number of \<open>..\<close> fits and the path points at \<open>jsModule\<close> whenever
  \<open>explicitRelative\<close> is right about the directory \<open>hbsModule + '/j/'\<close>.
\<close>

theorem pair_component_roundtrip:
  "(\<not> list_ex lineTerminator hbsModule
    \<and> virtualPairComponent explicitRelative hbsModule jsModule = Inr filename
    \<longrightarrow> (\<exists>match. decodeVirtualPairComponent explicitRelative filename = Inr (Some match)
          \<and> relativeHBSModule match = explicitRelative (dirname filename) hbsModule
          \<and> relativeJSModule match
            = (case jsModule of
                 None \<Rightarrow> None
               | Some j \<Rightarrow>
                   if j = [] \<or> explicitRelative (hbsModule @ js ''/j/'') j = [] then None
                   else Some (explicitRelative (hbsModule @ js ''/j/'') j))))
   \<and> (virtualPairComponent explicitRelative hbsModule (Some j) = Inr filename \<and> j \<noteq> []
      \<and> (prefix (js ''../'') (explicitRelative (hbsModule @ js ''/j/'') j)
         \<or> prefix [slash] (explicitRelative (hbsModule @ js ''/j/'') j))
    \<longrightarrow> resolve cwd [dirname filename, explicitRelative (hbsModule @ js ''/j/'') j]
        = resolve cwd [hbsModule @ js ''/j/'', explicitRelative (hbsModule @ js ''/j/'') j])"
proof (intro conjI impI)
  assume a: "\<not> list_ex lineTerminator hbsModule
    \<and> virtualPairComponent explicitRelative hbsModule jsModule = Inr filename"
  let ?rel = "case jsModule of None \<Rightarrow> []
      | Some j \<Rightarrow> if j \<noteq> [] then explicitRelative (hbsModule @ js ''/j/'') j else []"
  from a obtain encoded where e: "encodeURIComponent ?rel = Inr encoded"
    "filename = hbsModule @ [slash] @ encoded @ pairComponentMarker"
    by (auto elim: virtualPairComponent_shape)
  from a have nl: "\<not> list_ex lineTerminator hbsModule" by blast
  have p: "pairComponentPattern filename = Some (hbsModule, encoded)"
    unfolding e(2) by (rule pairComponentPattern_built[OF encode_no_slash[OF e(1)] nl])
  have d: "decodeURIComponent encoded = Inr ?rel"
    by (rule decode_encode[OF e(1)])
  let ?match = "\<lparr> relativeHBSModule = explicitRelative (dirname filename) hbsModule,
      relativeJSModule = (if ?rel \<noteq> [] then Some ?rel else None),
      debugName = stripTemplateExtension
                    (basename (explicitRelative (dirname filename) hbsModule)) \<rparr>"
  have "decodeVirtualPairComponent explicitRelative filename = Inr (Some ?match)"
    by (simp add: decodeVirtualPairComponent_def p d Let_def)
  moreover have "relativeJSModule ?match
      = (case jsModule of
           None \<Rightarrow> None
         | Some j \<Rightarrow>
             if j = [] \<or> explicitRelative (hbsModule @ js ''/j/'') j = [] then None
             else Some (explicitRelative (hbsModule @ js ''/j/'') j))"
    by (simp split: option.splits)
  ultimately show "\<exists>match. decodeVirtualPairComponent explicitRelative filename = Inr (Some match)
          \<and> relativeHBSModule match = explicitRelative (dirname filename) hbsModule
          \<and> relativeJSModule match
            = (case jsModule of
                 None \<Rightarrow> None
               | Some j \<Rightarrow>
                   if j = [] \<or> explicitRelative (hbsModule @ js ''/j/'') j = [] then None
                   else Some (explicitRelative (hbsModule @ js ''/j/'') j))"
    by (intro exI[of _ ?match]) simp
next
  let ?r = "explicitRelative (hbsModule @ js ''/j/'') j"
  assume a: "virtualPairComponent explicitRelative hbsModule (Some j) = Inr filename \<and> j \<noteq> []
      \<and> (prefix (js ''../'') ?r \<or> prefix [slash] ?r)"
  then obtain encoded where e: "encodeURIComponent ?r = Inr encoded"
    "filename = hbsModule @ [slash] @ encoded @ pairComponentMarker"
    by (auto elim: virtualPairComponent_shape)
  have ns: "slash \<notin> set encoded" by (rule encode_no_slash[OF e(1)])
  have len: "length ?r \<le> length encoded" by (rule encode_length[OF e(1)])
  from a have "?r \<noteq> []" by (auto simp add: js_def)
  with len have ne: "encoded \<noteq> []" by auto
  have dir: "dirname filename = hbsModule @ [slash] @ encoded"
    by (simp only: e(2) dirname_built[OF ns ne])
  from a consider (up) "prefix (js ''../'') ?r" | (abs) "prefix [slash] ?r" by blast
  then show "resolve cwd [dirname filename, ?r] = resolve cwd [hbsModule @ js ''/j/'', ?r]"
  proof cases
    case up
    then have "3 \<le> length ?r" by (auto simp add: prefix_def js_def)
    with len have "3 \<le> length encoded" by simp
    then have "encoded \<noteq> dotSegment" "encoded \<noteq> dotDotSegment"
      by (auto simp add: dotSegment_def dotDotSegment_def js_def)
    from resolve_same_depth[OF ne this ns up] show ?thesis by (simp only: dir)
  next
    case abs
    then have r: "?r \<noteq> []" "hd ?r = slash" by (auto simp add: prefix_def)
    show ?thesis
      unfolding resolve_absolute[OF r, of cwd "dirname filename"]
        resolve_absolute[OF r, of cwd "hbsModule @ js ''/j/''"] ..
  qed
qed

lemma sample_relative_js:
  "sampleRelative (js ''/app/components/foo.hbs'' @ js ''/j/'') (js ''/app/components/foo.js'')
   = js ''../../foo.js''"
  by (simp add: sample_eval)

lemma sample_encode:
  "encodeURIComponent (js ''../../foo.js'') = Inr (js ''..%2F..%2Ffoo.js'')"
  by (simp add: string_eval uri_eval Let_def)

lemma sample_virtual:
  "virtualPairComponent sampleRelative (js ''/app/components/foo.hbs'')
     (Some (js ''/app/components/foo.js''))
   = Inr (js ''/app/components/foo.hbs'' @ [slash] @ js ''..%2F..%2Ffoo.js'' @ pairComponentMarker)"
  by (simp add: virtualPairComponent_def sample_relative_js sample_encode Let_def)
     (simp add: js_def)

lemma sample_virtual_template_only:
  "virtualPairComponent sampleRelative (js ''/app/components/foo.hbs'') None
   = Inr (js ''/app/components/foo.hbs'' @ [slash] @ [] @ pairComponentMarker)"
  by (simp add: virtualPairComponent_def Let_def)

theorem pair_component_roundtrip_witness:
  "virtualPairComponent sampleRelative (js ''/app/components/foo.hbs'')
       (Some (js ''/app/components/foo.js''))
     = Inr (js ''/app/components/foo.hbs'' @ [slash] @ js ''..%2F..%2Ffoo.js''
            @ pairComponentMarker)
   \<and> (\<exists>match. decodeVirtualPairComponent sampleRelative
                  (js ''/app/components/foo.hbs'' @ [slash] @ js ''..%2F..%2Ffoo.js''
                   @ pairComponentMarker) = Inr (Some match)
         \<and> relativeJSModule match = Some (js ''../../foo.js''))
   \<and> resolve (js ''/'')
         [dirname (js ''/app/components/foo.hbs'' @ [slash] @ js ''..%2F..%2Ffoo.js''
                   @ pairComponentMarker),
          js ''../../foo.js'']
       = js ''/app/components/foo.js''
   \<and> (\<exists>match. decodeVirtualPairComponent sampleRelative
                  (js ''/app/components/foo.hbs'' @ [slash] @ [] @ pairComponentMarker)
                = Inr (Some match)
         \<and> relativeJSModule match = None)"
proof -
  let ?h = "js ''/app/components/foo.hbs''" and ?j = "js ''/app/components/foo.js''"
  let ?f = "?h @ [slash] @ js ''..%2F..%2Ffoo.js'' @ pairComponentMarker"
  have nl: "\<not> list_ex lineTerminator ?h" by (simp add: string_eval)
  have jn: "?j \<noteq> []" by (simp add: js_def)
  have up: "prefix (js ''../'') (sampleRelative (?h @ js ''/j/'') ?j)
            \<or> prefix [slash] (sampleRelative (?h @ js ''/j/'') ?j)"
    by (simp add: sample_relative_js) (simp add: js_def)
  note a = pair_component_roundtrip[where explicitRelative = sampleRelative
      and hbsModule = ?h and jsModule = "Some ?j" and filename = ?f,
      THEN conjunct1, rule_format, OF conjI[OF nl sample_virtual]]
  note b = pair_component_roundtrip[where explicitRelative = sampleRelative
      and hbsModule = ?h and j = ?j and filename = ?f and cwd = "js ''/''",
      THEN conjunct2, rule_format, OF conjI[OF sample_virtual conjI[OF jn up]]]
  note c = pair_component_roundtrip[where explicitRelative = sampleRelative
      and hbsModule = ?h and jsModule = None
      and filename = "?h @ [slash] @ [] @ pairComponentMarker",
      THEN conjunct1, rule_format, OF conjI[OF nl sample_virtual_template_only]]
  have r: "resolve (js ''/'') [?h @ js ''/j/'', js ''../../foo.js''] = ?j"
    by (simp add: path_eval string_eval Let_def)
  have a': "\<exists>match. decodeVirtualPairComponent sampleRelative ?f = Inr (Some match)
         \<and> relativeJSModule match = Some (js ''../../foo.js'')"
    using a jn by (auto simp add: sample_relative_js) (simp add: js_def)
  have b': "resolve (js ''/'') [dirname ?f, js ''../../foo.js''] = ?j"
    using b by (simp only: sample_relative_js r)
  have c': "\<exists>match. decodeVirtualPairComponent sampleRelative
                  (?h @ [slash] @ [] @ pairComponentMarker) = Inr (Some match)
         \<and> relativeJSModule match = None"
    using c by auto
  from sample_virtual a' b' c' show ?thesis by (intro conjI)
qed

lemma empty_and_nested_js_module:
  "virtualPairComponent sampleRelative (js ''/app/foo.hbs'') (Some [])
     = Inr (js ''/app/foo.hbs//embroider-pair-component'')
   \<and> decodeVirtualPairComponent sampleRelative (js ''/app/foo.hbs//embroider-pair-component'')
     = Inr (Some \<lparr> relativeHBSModule = js ''../foo.hbs'', relativeJSModule = None,
                   debugName = js ''foo'' \<rparr>)
   \<and> virtualPairComponent sampleRelative (js ''/a/b.hbs'') (Some (js ''/a/b.hbs/j/x.js''))
     = Inr (js ''/a/b.hbs/.%2Fx.js/embroider-pair-component'')
   \<and> decodeVirtualPairComponent sampleRelative (js ''/a/b.hbs/.%2Fx.js/embroider-pair-component'')
     = Inr (Some \<lparr> relativeHBSModule = js ''../../b.hbs'',
                   relativeJSModule = Some (js ''./x.js''), debugName = js ''b'' \<rparr>)
   \<and> resolve (js ''/'')
       [dirname (js ''/a/b.hbs/.%2Fx.js/embroider-pair-component''), js ''./x.js'']
     = js ''/a/b.hbs/.%2Fx.js/x.js''"
proof -
  have a: "virtualPairComponent sampleRelative (js ''/app/foo.hbs'') (Some [])
     = Inr (js ''/app/foo.hbs//embroider-pair-component'')"
    by (simp add: virtualPairComponent_def pairComponentMarker_def js_def slash_def)
  have b: "decodeVirtualPairComponent sampleRelative (js ''/app/foo.hbs//embroider-pair-component'')
     = Inr (Some \<lparr> relativeHBSModule = js ''../foo.hbs'', relativeJSModule = None,
                   debugName = js ''foo'' \<rparr>)"
    by (simp add: decodeVirtualPairComponent_def pairComponentPattern_def
        pairComponentMarker_def stripTemplateExtension_def sample_eval uri_eval)
  have "sampleRelative (js ''/a/b.hbs'' @ js ''/j/'') (js ''/a/b.hbs/j/x.js'') = js ''./x.js''"
    by (simp add: sample_eval)
  moreover have "encodeURIComponent (js ''./x.js'') = Inr (js ''.%2Fx.js'')"
    by (simp add: string_eval uri_eval Let_def)
  ultimately have c: "virtualPairComponent sampleRelative (js ''/a/b.hbs'')
       (Some (js ''/a/b.hbs/j/x.js''))
     = Inr (js ''/a/b.hbs/.%2Fx.js/embroider-pair-component'')"
    by (simp add: virtualPairComponent_def Let_def)
       (simp add: pairComponentMarker_def js_def slash_def)
  have d: "decodeVirtualPairComponent sampleRelative
       (js ''/a/b.hbs/.%2Fx.js/embroider-pair-component'')
     = Inr (Some \<lparr> relativeHBSModule = js ''../../b.hbs'',
                   relativeJSModule = Some (js ''./x.js''), debugName = js ''b'' \<rparr>)"
    by (simp add: decodeVirtualPairComponent_def pairComponentPattern_def
        pairComponentMarker_def stripTemplateExtension_def sample_eval uri_eval)
  have e: "resolve (js ''/'')
       [dirname (js ''/a/b.hbs/.%2Fx.js/embroider-pair-component''), js ''./x.js'']
     = js ''/a/b.hbs/.%2Fx.js/x.js''"
    by (simp add: path_eval string_eval Let_def)
  from a b c d e show ?thesis by (intro conjI)
qed

lemma line_terminator_hbs_not_decoded:
  "virtualPairComponent sampleRelative (js ''/a'' @ [0x0A] @ js ''b.hbs'') None
     = Inr (js ''/a'' @ [0x0A] @ js ''b.hbs//embroider-pair-component'')
   \<and> decodeVirtualPairComponent sampleRelative
       (js ''/a'' @ [0x0A] @ js ''b.hbs//embroider-pair-component'') = Inr None"
  by (simp add: virtualPairComponent_def decodeVirtualPairComponent_def
      pairComponentPattern_def pairComponentMarker_def string_eval Let_def)

text \<open>
  C1, as the claim words it, fails. For the empty string as \<open>jsModule\<close>, which is not
  \<open>null\<close>, the decoded \<open>relativeJSModule\<close> is \<open>null\<close>. For a js module below
  \<open>hbsModule + '/j'\<close>, here \<open>/a/b.hbs/j/x.js\<close>, the relative path \<open>./x.js\<close> has no
  \<open>..\<close>, and resolved against the directory of the virtual filename it points at
  \<open>/a/b.hbs/.%2Fx.js/x.js\<close>, not at the js module. And for an hbs module path with a
  line feed, the decoder does not recognize the filename that the encoder built.
\<close>

theorem pair_component_roundtrip_counterexample:
  "virtualPairComponent sampleRelative (js ''/app/foo.hbs'') (Some [])
     = Inr (js ''/app/foo.hbs//embroider-pair-component'')
   \<and> decodeVirtualPairComponent sampleRelative (js ''/app/foo.hbs//embroider-pair-component'')
     = Inr (Some \<lparr> relativeHBSModule = js ''../foo.hbs'', relativeJSModule = None,
                   debugName = js ''foo'' \<rparr>)
   \<and> virtualPairComponent sampleRelative (js ''/a/b.hbs'') (Some (js ''/a/b.hbs/j/x.js''))
     = Inr (js ''/a/b.hbs/.%2Fx.js/embroider-pair-component'')
   \<and> decodeVirtualPairComponent sampleRelative (js ''/a/b.hbs/.%2Fx.js/embroider-pair-component'')
     = Inr (Some \<lparr> relativeHBSModule = js ''../../b.hbs'',
                   relativeJSModule = Some (js ''./x.js''), debugName = js ''b'' \<rparr>)
   \<and> resolve (js ''/'')
       [dirname (js ''/a/b.hbs/.%2Fx.js/embroider-pair-component''), js ''./x.js'']
     = js ''/a/b.hbs/.%2Fx.js/x.js''
   \<and> virtualPairComponent sampleRelative (js ''/a'' @ [0x0A] @ js ''b.hbs'') None
     = Inr (js ''/a'' @ [0x0A] @ js ''b.hbs//embroider-pair-component'')
   \<and> decodeVirtualPairComponent sampleRelative
       (js ''/a'' @ [0x0A] @ js ''b.hbs//embroider-pair-component'') = Inr None"
  using empty_and_nested_js_module line_terminator_hbs_not_decoded
  by (intro conjI) simp_all

end
